theory Spec2Isabelle
  imports Main "HOL-Library.Sublist"
begin

section \<open>The plugin protocol of yass (models/plugin.py)\<close>

text \<open>
  The theory embeds \<^verbatim>\<open>src/yass/models/plugin.py\<close>: the result cleaner
  \<^verbatim>\<open>PluginBase.clean\<close>, the query builder \<^verbatim>\<open>PluginBase.url\<close>, the polling loop
  \<^verbatim>\<open>PluginBase.run\<close>, the constructor \<^verbatim>\<open>PluginBase.__init__\<close> and the resolution of
  the \<^verbatim>\<open>_meta\<close> options in \<^verbatim>\<open>PluginMeta.__new__\<close>. Python byte strings are
  \<^typ>\<open>string\<close>, lists are lists, \<^verbatim>\<open>None\<close>-or-list arguments are options, exceptions
  are values (caught where the source catches them, handed on where it does not), and
  the \<^verbatim>\<open>while True\<close> loop is a partial function whose value \<^term>\<open>None\<close> means that
  the loop never ends.
\<close>

subsection \<open>The regular expression of \<^verbatim>\<open>clean\<close>\<close>

text \<open>
  \<^verbatim>\<open>clean\<close> compiles the pattern
  \<^verbatim>\<open>(.+://)?(?P<subdomain>(.*){domain})[/\?].*\<close>
  with the target domain pasted in unescaped, and applies \<^verbatim>\<open>regexp.match\<close>, which is
  anchored at the start of the text only. Without the DOTALL flag \<^verbatim>\<open>.\<close> matches any
  character except the line feed.
\<close>

definition newline :: char where
  "newline = CHR 0x0A"

text \<open>
  What one character of the pasted domain means inside the pattern: a full stop is the
  wildcard, any other character that is not a metacharacter of the \<^verbatim>\<open>re\<close> syntax
  stands for itself.
\<close>

datatype atom = Lit char | Dot

fun atom_matches :: "atom \<Rightarrow> char \<Rightarrow> bool" where
  "atom_matches (Lit a) c = (c = a)"
| "atom_matches Dot c = (c \<noteq> newline)"

text \<open>
  The metacharacters of the \<^verbatim>\<open>re\<close> syntax other than the full stop: the backslash
  (code 0x5C) and \<^verbatim>\<open>^ $ * + ? { } [ ] | ( )\<close>. A domain without any of them is a
  sequence of atoms; \<^term>\<open>None\<close> marks the other domains, whose pattern is dealt with
  in \<open>re_compile\<close> below.
\<close>

definition metachar :: "char \<Rightarrow> bool" where
  "metachar c = (c = CHR 0x5C \<or> c \<in> set ''^$*+?{}[]|()'')"

fun domain_atoms :: "string \<Rightarrow> atom list option" where
  "domain_atoms [] = Some []"
| "domain_atoms (c # cs) =
     (if metachar c then None
      else map_option ((#) (if c = CHR ''.'' then Dot else Lit c)) (domain_atoms cs))"

text \<open>Matching a sequence of atoms at the head of a text; the result is the rest.\<close>

fun match_atoms :: "atom list \<Rightarrow> string \<Rightarrow> string option" where
  "match_atoms [] s = Some s"
| "match_atoms (a # as) [] = None"
| "match_atoms (a # as) (c # cs) = (if atom_matches a c then match_atoms as cs else None)"

fun match_lit :: "string \<Rightarrow> string \<Rightarrow> string option" where
  "match_lit [] s = Some s"
| "match_lit (a # as) [] = None"
| "match_lit (a # as) (c # cs) = (if c = a then match_lit as cs else None)"

text \<open>
  The backtracking matcher, in continuation style. \<^verbatim>\<open>.*\<close> is greedy: it first tries to
  consume one more character, and falls back to the continuation \<open>k\<close> at the current
  position only when every longer attempt has failed. \<^verbatim>\<open>.+\<close> is one character followed
  by \<^verbatim>\<open>.*\<close>.
\<close>

fun dot_star :: "(string \<Rightarrow> 'a option) \<Rightarrow> string \<Rightarrow> 'a option" where
  "dot_star k [] = k []"
| "dot_star k (c # cs) =
     (if c \<noteq> newline
      then (case dot_star k cs of Some r \<Rightarrow> Some r | None \<Rightarrow> k (c # cs))
      else k (c # cs))"

fun dot_plus :: "(string \<Rightarrow> 'a option) \<Rightarrow> string \<Rightarrow> 'a option" where
  "dot_plus k [] = None"
| "dot_plus k (c # cs) = (if c \<noteq> newline then dot_star k cs else None)"

text \<open>The character class \<^verbatim>\<open>[/\?]\<close>.\<close>

definition sep :: "char \<Rightarrow> bool" where
  "sep c = (c = CHR ''/'' \<or> c = CHR ''?'')"

text \<open>
  The end of the group \<^verbatim>\<open>subdomain\<close>, which started at the text \<open>s\<close> and ends where
  \<open>s2\<close> is left: one character of \<^verbatim>\<open>[/\?]\<close> has to follow, the trailing \<^verbatim>\<open>.*\<close> always
  matches, and the group's text is what was consumed between \<open>s\<close> and \<open>s2\<close>.
\<close>

definition after_group :: "string \<Rightarrow> string \<Rightarrow> string option" where
  "after_group s s2 =
     (case s2 of
        [] \<Rightarrow> None
      | c # _ \<Rightarrow> if sep c then Some (take (length s - length s2) s) else None)"

text \<open>\<^verbatim>\<open>(?P<subdomain>(.*){domain})[/\?].*\<close> at the text \<open>s\<close>.\<close>

definition subdomain_group :: "atom list \<Rightarrow> string \<Rightarrow> string option" where
  "subdomain_group A s =
     dot_star (\<lambda>s1. case match_atoms A s1 of
                       None \<Rightarrow> None
                     | Some s2 \<Rightarrow> after_group s s2) s"

text \<open>
  \<^verbatim>\<open>regexp.match(url)\<close>: \<^term>\<open>None\<close> when there is no match, otherwise
  \<^verbatim>\<open>match.group('subdomain')\<close> of the first match in backtracking order. The optional
  group \<^verbatim>\<open>(.+://)?\<close> is tried first, and skipped only when no match uses it.
\<close>

definition regexp_match :: "atom list \<Rightarrow> string \<Rightarrow> string option" where
  "regexp_match A url =
     (case dot_plus (\<lambda>s1. case match_lit ''://'' s1 of
                             None \<Rightarrow> None
                           | Some s2 \<Rightarrow> subdomain_group A s2) url of
        Some g \<Rightarrow> Some g
      | None \<Rightarrow> subdomain_group A url)"

subsection \<open>Exceptions and \<^verbatim>\<open>re.compile\<close>\<close>

text \<open>
  What can be raised while \<^verbatim>\<open>run\<close> executes: an instance of \<^verbatim>\<open>Exception\<close> or of one
  of its subclasses (with its \<^verbatim>\<open>message\<close>), anything else that Python can raise
  (\<^verbatim>\<open>KeyboardInterrupt\<close>, \<^verbatim>\<open>SystemExit\<close>, \<^verbatim>\<open>GeneratorExit\<close>, an instance of a class
  outside \<^verbatim>\<open>Exception\<close>; the string names it), and the \<^verbatim>\<open>error\<close> of the module
  \<^verbatim>\<open>re\<close>, itself a subclass of \<^verbatim>\<open>Exception\<close>. \<open>is_Exception\<close> is what the clause
  \<^verbatim>\<open>except Exception\<close> catches.
\<close>

datatype exn = Exception (message: string) | Other_raise string | Re_error

fun is_Exception :: "exn \<Rightarrow> bool" where
  "is_Exception (Exception m) = True"
| "is_Exception (Other_raise n) = False"
| "is_Exception Re_error = True"

text \<open>
  The pattern string that \<^verbatim>\<open>clean\<close> builds with \<^verbatim>\<open>format\<close>, and a compiled pattern
  as \<^verbatim>\<open>clean\<close> sees it: for a text, \<^term>\<open>None\<close> when \<^verbatim>\<open>match\<close> finds nothing,
  otherwise the group \<^verbatim>\<open>subdomain\<close> (the empty string when the group took no part in
  the match; \<^verbatim>\<open>clean\<close> treats both alike).
\<close>

definition pattern :: "string \<Rightarrow> string" where
  "pattern d = ''(.+://)?(?P<subdomain>(.*)'' @ d @ '')[/'' @ [CHR 0x5C] @ ''?].*''"

type_synonym regex = "string \<Rightarrow> string option"

text \<open>
  A domain in which every metacharacter is an opening parenthesis, and which has at least
  one: each of them opens a group that nothing closes, so the pattern does not compile.
\<close>

definition unclosed :: "string \<Rightarrow> bool" where
  "unclosed d = (CHR ''('' \<in> set d \<and> list_all (\<lambda>c. c = CHR ''('' \<or> \<not> metachar c) d)"

text \<open>
  \<^verbatim>\<open>re.compile\<close> of the pattern for a domain. For a domain without metacharacters other
  than the full stop it is the matcher above; for an \<^const>\<open>unclosed\<close> domain it raises
  \<^verbatim>\<open>re.error\<close>. The module \<^verbatim>\<open>re\<close> is a library, and what it does with every other
  pattern is left open: it is the parameter \<open>re\<close>, a function from the pattern string to
  an exception or a compiled pattern, and every theorem holds whatever it is.
\<close>

type_synonym re_module = "string \<Rightarrow> exn + regex"

definition re_compile :: "re_module \<Rightarrow> string \<Rightarrow> exn + regex" where
  "re_compile re d =
     (case domain_atoms d of
        Some A \<Rightarrow> Inr (regexp_match A)
      | None \<Rightarrow> if unclosed d then Inl Re_error else re (pattern d))"

subsection \<open>\<^verbatim>\<open>PluginBase.clean\<close>\<close>

text \<open>
  The \<^verbatim>\<open>for\<close> loop of \<^verbatim>\<open>clean\<close>: a text is kept when it matches and the group is a
  non-empty string (\<^verbatim>\<open>if match and match.group('subdomain')\<close>). The pattern is
  compiled before the loop, also when there is no text to clean.
\<close>

fun clean_loop :: "regex \<Rightarrow> string list \<Rightarrow> string list \<Rightarrow> string list" where
  "clean_loop regexp subdomains [] = subdomains"
| "clean_loop regexp subdomains (url # urls) =
     (case regexp url of
        Some g \<Rightarrow> if g \<noteq> [] then clean_loop regexp (subdomains @ [g]) urls
                  else clean_loop regexp subdomains urls
      | None \<Rightarrow> clean_loop regexp subdomains urls)"

definition clean :: "re_module \<Rightarrow> string \<Rightarrow> string list \<Rightarrow> exn + string list" where
  "clean re domain urls =
     (case re_compile re domain of
        Inl e \<Rightarrow> Inl e
      | Inr regexp \<Rightarrow> Inr (clean_loop regexp [] urls))"

subsection \<open>What the specification says about \<^verbatim>\<open>clean\<close>\<close>

text \<open>
  The matching rule in the words of the specification, for comparison with
  \<^const>\<open>clean\<close>: strip an optional leading \<^verbatim>\<open>scheme://\<close>, take the prefix of the rest
  up to the first \<^verbatim>\<open>/\<close> or \<^verbatim>\<open>?\<close>, accept when that prefix is non-empty and ends with
  the domain, and return the prefix. A scheme is read as a non-empty run of characters
  other than \<^verbatim>\<open>:\<close>, \<^verbatim>\<open>/\<close> and \<^verbatim>\<open>?\<close>.
\<close>

definition spec_strip_scheme :: "string \<Rightarrow> string" where
  "spec_strip_scheme t =
     (let scheme = takeWhile (\<lambda>c. c \<noteq> CHR '':'' \<and> \<not> sep c) t;
          rest = dropWhile (\<lambda>c. c \<noteq> CHR '':'' \<and> \<not> sep c) t
      in if scheme \<noteq> [] \<and> prefix ''://'' rest then drop 3 rest else t)"

definition spec_host :: "string \<Rightarrow> string" where
  "spec_host t = takeWhile (\<lambda>c. \<not> sep c) (spec_strip_scheme t)"

definition spec_accepts :: "string \<Rightarrow> string \<Rightarrow> bool" where
  "spec_accepts d t =
     (dropWhile (\<lambda>c. \<not> sep c) (spec_strip_scheme t) \<noteq> [] \<and>
      spec_host t \<noteq> [] \<and> suffix d (spec_host t))"

definition spec_clean :: "string \<Rightarrow> string \<Rightarrow> string list" where
  "spec_clean d t = (if spec_accepts d t then [spec_host t] else [])"

text \<open>
  A text fits a domain when it equals the domain character by character, except that
  where the domain has a full stop the text may have any character but the line feed:
  what the pasted domain matches as a pattern.
\<close>

fun fits :: "string \<Rightarrow> string \<Rightarrow> bool" where
  "fits [] [] = True"
| "fits (d # ds) (m # ms) = ((if d = CHR ''.'' then m \<noteq> newline else m = d) \<and> fits ds ms)"
| "fits [] (m # ms) = False"
| "fits (d # ds) [] = False"

text \<open>
  Where the pattern can match, by positions. \<open>candidate d s n\<close>: the group
  \<^verbatim>\<open>subdomain\<close>, started at the beginning of \<open>s\<close>, can end after \<open>n\<close> characters
  without line feed followed by a text that fits the domain, because \<^verbatim>\<open>/\<close> or \<^verbatim>\<open>?\<close>
  comes next. \<open>scheme_end d t q\<close>: the optional group can take the first \<open>q\<close>
  characters of \<open>t\<close> (at least one, none a line feed) and the \<^verbatim>\<open>://\<close> after them,
  because the rest of the pattern matches what follows.
\<close>

definition candidate :: "string \<Rightarrow> string \<Rightarrow> nat \<Rightarrow> bool" where
  "candidate d s n =
     (n + length d < length s \<and> newline \<notin> set (take n s) \<and>
      fits d (take (length d) (drop n s)) \<and> sep (s ! (n + length d)))"

definition scheme_end :: "string \<Rightarrow> string \<Rightarrow> nat \<Rightarrow> bool" where
  "scheme_end d t q =
     (0 < q \<and> newline \<notin> set (take q t) \<and> take 3 (drop q t) = ''://'' \<and>
      (\<exists>n. candidate d (drop (q + 3) t) n))"

text \<open>
  The greedy choice. \<open>greedy_rest d t s\<close>: \<open>s\<close> is what is left of \<open>t\<close> after the
  longest possible scheme part, or \<open>t\<close> itself when no scheme part is possible.
  \<open>greedy_host d s h\<close>: \<open>h\<close> is the longest prefix of \<open>s\<close> at which the group can end.
\<close>

definition greedy_rest :: "string \<Rightarrow> string \<Rightarrow> string \<Rightarrow> bool" where
  "greedy_rest d t s =
     ((\<exists>q. scheme_end d t q \<and> (\<forall>q'. scheme_end d t q' \<longrightarrow> q' \<le> q) \<and> s = drop (q + 3) t) \<or>
      ((\<forall>q. \<not> scheme_end d t q) \<and> s = t))"

definition greedy_host :: "string \<Rightarrow> string \<Rightarrow> string \<Rightarrow> bool" where
  "greedy_host d s h =
     (\<exists>n. candidate d s n \<and> (\<forall>n'. candidate d s n' \<longrightarrow> n' \<le> n) \<and>
          h = take (n + length d) s)"

subsection \<open>Options, plugin instances and \<^verbatim>\<open>PluginBase.__init__\<close>\<close>

text \<open>
  The attributes of \<^verbatim>\<open>self._meta\<close> that \<^verbatim>\<open>url\<close> and \<^verbatim>\<open>run\<close> read. The class
  \<^verbatim>\<open>models.options.Options\<close> is not among the sources; the record lists the attributes
  the plugin reads from it, as strings, a delay and a flag.
\<close>

record options =
  search_url :: string
  query_param :: string
  include_param :: string
  exclude_param :: string
  subdomains_selector :: string
  request_delay :: nat
  abstract :: bool

record plugin =
  meta :: options
  domain :: string
  exclude_subdomains :: "string list option"

datatype error = AttributeError string

text \<open>
  \<^verbatim>\<open>__init__(self, domain, *args, **kwargs)\<close>: the domain is stored as it is given,
  \<^verbatim>\<open>exclude_subdomains\<close> is popped from the keyword arguments (default \<^verbatim>\<open>None\<close>), and
  any keyword left raises \<^verbatim>\<open>AttributeError\<close> with the keys joined by a comma.
\<close>

fun join :: "string \<Rightarrow> string list \<Rightarrow> string" where
  "join s [] = []"
| "join s [x] = x"
| "join s (x # y # ys) = x @ s @ join s (y # ys)"

definition init :: "options \<Rightarrow> string \<Rightarrow> (string \<times> string list) list \<Rightarrow> error + plugin" where
  "init m d kwargs =
     (let rest = filter (\<lambda>kv. fst kv \<noteq> ''exclude_subdomains'') kwargs
      in if rest \<noteq> []
         then Inl (AttributeError
                (''Unknown attributes in plugin initialization ('' @
                 join '', '' (map fst rest) @ '')''))
         else Inr \<lparr>meta = m, domain = d,
                   exclude_subdomains = map_of kwargs ''exclude_subdomains''\<rparr>)"

subsection \<open>\<^verbatim>\<open>helpers.without_duplicates\<close>\<close>

text \<open>
  Modelled from the spec: \<^verbatim>\<open>helpers.without_duplicates\<close> is imported by the plugin but
  is not among the sources. The specification describes it as deduplication that
  preserves first-seen order: the first occurrence of every element is kept, in place.
\<close>

fun without_duplicates :: "'a list \<Rightarrow> 'a list" where
  "without_duplicates [] = []"
| "without_duplicates (x # xs) = x # without_duplicates (removeAll x xs)"

subsection \<open>\<^verbatim>\<open>PluginBase.url\<close>\<close>

text \<open>\<^verbatim>\<open>x or []\<close> for an argument that is \<^verbatim>\<open>None\<close> or a list.\<close>

definition or_empty :: "'a list option \<Rightarrow> 'a list" where
  "or_empty x = (case x of None \<Rightarrow> [] | Some xs \<Rightarrow> xs)"

text \<open>The first \<^verbatim>\<open>format\<close> of \<^verbatim>\<open>url\<close>: the query without exclusions.\<close>

definition base_url :: "plugin \<Rightarrow> string" where
  "base_url self =
     search_url (meta self) @ ''?'' @ query_param (meta self) @ ''='' @
     include_param (meta self) @ domain self"

text \<open>The local variable \<^verbatim>\<open>excluded_subdomains\<close> of \<^verbatim>\<open>url\<close>.\<close>

definition excluded_subdomains :: "plugin \<Rightarrow> string list option \<Rightarrow> string list" where
  "excluded_subdomains self excl =
     without_duplicates (or_empty excl @ or_empty (exclude_subdomains self))"

definition url :: "plugin \<Rightarrow> string list option \<Rightarrow> string" where
  "url self excl =
     (let excluded = excluded_subdomains self excl
      in if excluded \<noteq> []
         then base_url self @ ''+'' @
              join ''+'' (map (\<lambda>excluded_domain. exclude_param (meta self) @ excluded_domain)
                              excluded)
         else base_url self)"

subsection \<open>\<^verbatim>\<open>PluginBase.run\<close>\<close>

text \<open>
  The collaborator: \<^verbatim>\<open>PyQuery(url=url)\<close> followed by the selection
  \<^verbatim>\<open>pq(meta.subdomains_selector)\<close>. It is given the number of requests made before this
  one, the URL and the selector, and it either raises or returns the selected elements.
  An element is known by what its method \<^verbatim>\<open>text_content()\<close> does: it returns a text, or
  it raises (\<^verbatim>\<open>AttributeError\<close> when the object has no such method).
\<close>

datatype element = Element (text_content: "exn + string")

type_synonym fetcher = "nat \<Rightarrow> string \<Rightarrow> string \<Rightarrow> exn + element list"

text \<open>
  \<^verbatim>\<open>PluginBase.extract\<close> (the name \<open>extract\<close> belongs to a function on lists of the
  library): the list comprehension stops at the first element whose \<^verbatim>\<open>text_content\<close>
  raises.
\<close>

fun extract_texts :: "element list \<Rightarrow> exn + string list" where
  "extract_texts [] = Inr []"
| "extract_texts (element # elements) =
     (case text_content element of
        Inl e \<Rightarrow> Inl e
      | Inr t \<Rightarrow> (case extract_texts elements of Inl e \<Rightarrow> Inl e | Inr ts \<Rightarrow> Inr (t # ts)))"

text \<open>
  The variables of the loop, and \<open>requested\<close>, the URLs handed to the collaborator so
  far, in order (the loop itself does not keep them). The progress lines written to
  standard output are not part of the state, and \<^verbatim>\<open>time.sleep\<close> with the delay of the
  options, which is not negative, only waits.
\<close>

record loop_state =
  index :: nat
  collected_subdomains :: "string list"
  requested :: "string list"

text \<open>The two \<^verbatim>\<open>break\<close> statements of the loop.\<close>

datatype stop = Connection_error | No_subdomains

text \<open>
  How one pass through the body ends: at the end of the body, at a \<^verbatim>\<open>break\<close>, or with an
  exception that leaves \<^verbatim>\<open>run\<close>; each with the state reached.
\<close>

datatype step = Continue loop_state | Break stop loop_state | Raise exn loop_state

text \<open>
  One pass through the body of \<^verbatim>\<open>while True\<close>. Only the two calls of the collaborator are
  inside \<^verbatim>\<open>try\<close>, and the clause is \<^verbatim>\<open>except Exception\<close>: what the collaborator raises
  is caught when it is an instance of \<^verbatim>\<open>Exception\<close> and leaves \<^verbatim>\<open>run\<close> otherwise.
  \<^verbatim>\<open>extract\<close> and \<^verbatim>\<open>clean\<close> are called after the \<^verbatim>\<open>try\<close> statement, so whatever they
  raise leaves \<^verbatim>\<open>run\<close>. \<^verbatim>\<open>list.remove\<close> deletes the first occurrence, which is
  \<^const>\<open>remove1\<close>.
\<close>

definition iteration :: "re_module \<Rightarrow> fetcher \<Rightarrow> plugin \<Rightarrow> loop_state \<Rightarrow> step" where
  "iteration re fetch self s =
     (let u = url self (Some (collected_subdomains s));
          s1 = s\<lparr>index := index s + 1, requested := requested s @ [u]\<rparr>
      in case fetch (index s) u (subdomains_selector (meta self)) of
           Inl e \<Rightarrow> if is_Exception e then Break Connection_error s1 else Raise e s1
         | Inr elements \<Rightarrow>
             (case extract_texts elements of
                Inl e \<Rightarrow> Raise e s1
              | Inr texts \<Rightarrow>
                  (case clean re (domain self) texts of
                     Inl e \<Rightarrow> Raise e s1
                   | Inr subdomains \<Rightarrow>
                       if subdomains \<noteq> []
                       then let c = without_duplicates (collected_subdomains s @ subdomains);
                                c' = (if domain self \<in> set c then remove1 (domain self) c
                                      else c)
                            in Continue (s1\<lparr>collected_subdomains := c'\<rparr>)
                       else Break No_subdomains s1)))"

text \<open>
  How \<^verbatim>\<open>run\<close> ends: it returns a list, or it raises; in both cases together with the
  URLs requested, and for a return with the \<^verbatim>\<open>break\<close> that ended the loop.
\<close>

datatype outcome =
  Returned (reason: stop) (requests: "string list") (result: "string list")
| Raised (raised: exn) (requests: "string list")

partial_function (option) while_True ::
  "re_module \<Rightarrow> fetcher \<Rightarrow> plugin \<Rightarrow> loop_state \<Rightarrow> outcome option" where
  "while_True re fetch self s =
     (case iteration re fetch self s of
        Continue s' \<Rightarrow> while_True re fetch self s'
      | Break r s' \<Rightarrow> Some (Returned r (requested s') (collected_subdomains s'))
      | Raise e s' \<Rightarrow> Some (Raised e (requested s')))"

definition initial :: loop_state where
  "initial = \<lparr>index = 0, collected_subdomains = [], requested = []\<rparr>"

definition run :: "re_module \<Rightarrow> fetcher \<Rightarrow> plugin \<Rightarrow> outcome option" where
  "run re fetch self = while_True re fetch self initial"

text \<open>
  The state after \<open>n\<close> passes through the body that all reached the end of the body,
  or the way the loop was left within the first \<open>n\<close> passes.
\<close>

fun iterations :: "re_module \<Rightarrow> fetcher \<Rightarrow> plugin \<Rightarrow> nat \<Rightarrow> loop_state \<Rightarrow> step" where
  "iterations re fetch self 0 s = Continue s"
| "iterations re fetch self (Suc n) s =
     (case iteration re fetch self s of
        Continue s' \<Rightarrow> iterations re fetch self n s'
      | Break r s' \<Rightarrow> Break r s'
      | Raise e s' \<Rightarrow> Raise e s')"

text \<open>How a result of \<^const>\<open>iterations\<close> ends the loop, if it does.\<close>

fun ended :: "step \<Rightarrow> outcome option" where
  "ended (Continue s) = None"
| "ended (Break r s) = Some (Returned r (requested s) (collected_subdomains s))"
| "ended (Raise e s) = Some (Raised e (requested s))"

text \<open>
  The list \<^verbatim>\<open>subdomains\<close> that the pass starting in state \<open>s\<close> computes (empty when
  something is raised before), and the concatenation of these lists over the first \<open>n\<close>
  passes: everything the cleaner has produced so far, in order.
\<close>

definition cleaned :: "re_module \<Rightarrow> fetcher \<Rightarrow> plugin \<Rightarrow> loop_state \<Rightarrow> string list" where
  "cleaned re fetch self s =
     (case fetch (index s) (url self (Some (collected_subdomains s)))
             (subdomains_selector (meta self)) of
        Inl e \<Rightarrow> []
      | Inr elements \<Rightarrow>
          (case extract_texts elements of
             Inl e \<Rightarrow> []
           | Inr texts \<Rightarrow>
               (case clean re (domain self) texts of Inl e \<Rightarrow> [] | Inr subdomains \<Rightarrow> subdomains)))"

fun harvest :: "re_module \<Rightarrow> fetcher \<Rightarrow> plugin \<Rightarrow> nat \<Rightarrow> loop_state \<Rightarrow> string list" where
  "harvest re fetch self 0 s = []"
| "harvest re fetch self (Suc n) s =
     cleaned re fetch self s @
     (case iteration re fetch self s of
        Continue s' \<Rightarrow> harvest re fetch self n s'
      | Break r s' \<Rightarrow> []
      | Raise e s' \<Rightarrow> [])"

subsection \<open>\<^verbatim>\<open>PluginMeta.__new__\<close>\<close>

text \<open>
  Attribute values, and a namespace: the attributes of a \<^verbatim>\<open>Meta\<close> class or the
  \<^verbatim>\<open>__dict__\<close> of an options object.
\<close>

datatype pyval = PyNone | PyBool bool | PyInt int | PyStr string

fun truthy :: "pyval \<Rightarrow> bool" where
  "truthy PyNone = False"
| "truthy (PyBool b) = b"
| "truthy (PyInt i) = (i \<noteq> 0)"
| "truthy (PyStr s) = (s \<noteq> [])"

type_synonym namespace = "string \<Rightarrow> pyval option"

text \<open>\<^verbatim>\<open>hasattr(meta, attr)\<close>, where \<^verbatim>\<open>meta\<close> is a \<^verbatim>\<open>Meta\<close> class or \<^verbatim>\<open>None\<close>.\<close>

definition hasattr :: "namespace option \<Rightarrow> string \<Rightarrow> bool" where
  "hasattr obj attr = (case obj of None \<Rightarrow> False | Some ns \<Rightarrow> ns attr \<noteq> None)"

text \<open>
  The part of \<^verbatim>\<open>__new__\<close> that computes \<^verbatim>\<open>new_class._meta\<close> for a class with plugin
  parents. \<open>Options\<close> is the constructor \<^verbatim>\<open>models.options.Options\<close>, which is not
  among the sources and is a parameter here; \<open>attr_meta\<close> is \<^verbatim>\<open>attrs.pop('Meta', None)\<close>,
  \<open>class_Meta\<close> is \<^verbatim>\<open>getattr(new_class, 'Meta', None)\<close> and \<open>base_meta\<close> is
  \<^verbatim>\<open>getattr(new_class, '_meta', None)\<close>, the \<^verbatim>\<open>_meta\<close> that the new class finds in its
  bases. Reading \<^verbatim>\<open>base_meta.abstract\<close> raises \<^verbatim>\<open>AttributeError\<close> when the attribute is
  missing.
\<close>

definition PluginMeta_new ::
  "(namespace option \<Rightarrow> namespace) \<Rightarrow> namespace option \<Rightarrow> namespace option \<Rightarrow>
   namespace option \<Rightarrow> error + namespace" where
  "PluginMeta_new Options attr_meta class_Meta base_meta =
     (let meta = (case attr_meta of None \<Rightarrow> class_Meta | Some m \<Rightarrow> Some m);
          new_meta = Options meta
      in case base_meta of
           None \<Rightarrow> Inr new_meta
         | Some bm \<Rightarrow>
             (case bm ''abstract'' of
                None \<Rightarrow> Inl (AttributeError ''abstract'')
              | Some a \<Rightarrow>
                  if \<not> truthy a
                  then Inr (\<lambda>attr. if bm attr \<noteq> None \<and> \<not> hasattr meta attr
                                   then bm attr else new_meta attr)
                  else Inr new_meta))"

text \<open>
  A chain of plugin classes with single inheritance: \<^verbatim>\<open>PluginBase\<close>, or a class
  statement with one base and, optionally, a \<^verbatim>\<open>Meta\<close> class in its body.
  \<^verbatim>\<open>__new__\<close> pops \<^verbatim>\<open>Meta\<close> from the attributes before it sets them, so no class of
  the chain has an attribute \<^verbatim>\<open>Meta\<close>, and \<^verbatim>\<open>PluginBase\<close> has no \<^verbatim>\<open>_meta\<close>.
  \<open>class_meta\<close> is the \<^verbatim>\<open>_meta\<close> attribute of a class once all class statements of
  its chain have run.
\<close>

datatype pclass = PluginBase | Subclass pclass "namespace option"

fun class_meta ::
  "(namespace option \<Rightarrow> namespace) \<Rightarrow> pclass \<Rightarrow> error + namespace option" where
  "class_meta Options PluginBase = Inr None"
| "class_meta Options (Subclass b attr_meta) =
     (case class_meta Options b of
        Inl e \<Rightarrow> Inl e
      | Inr base_meta \<Rightarrow>
          (case PluginMeta_new Options attr_meta None base_meta of
             Inl e \<Rightarrow> Inl e
           | Inr m \<Rightarrow> Inr (Some m)))"

text \<open>
  Modelled from the spec: the constructor \<^verbatim>\<open>models.options.Options\<close> is not among the
  sources. The specification says that declared fields are used as they are and that
  the abstract flag is a boolean; here a field that the declaration omits has the value
  \<^verbatim>\<open>None\<close>, and the flag is false unless declared.
\<close>

definition config_fields :: "string list" where
  "config_fields =
     [''search_url'', ''query_param'', ''include_param'', ''exclude_param'',
      ''subdomains_selector'', ''request_delay'', ''abstract'']"

definition declared_options :: "namespace option \<Rightarrow> namespace" where
  "declared_options decl attr =
     (if attr \<in> set config_fields
      then (case (case decl of None \<Rightarrow> None | Some ns \<Rightarrow> ns attr) of
              Some v \<Rightarrow> Some v
            | None \<Rightarrow> Some (if attr = ''abstract'' then PyBool False else PyNone))
      else None)"

subsection \<open>Example instances\<close>

text \<open>A configuration, plugin instances and collaborators used to instantiate the theorems.\<close>

definition google :: options where
  "google = \<lparr>search_url = ''https://www.google.com/search'', query_param = ''q'',
     include_param = ''site:'', exclude_param = ''-site:'', subdomains_selector = ''cite'',
     request_delay = 0, abstract = False\<rparr>"

definition example_plugin :: plugin where
  "example_plugin = \<lparr>meta = google, domain = ''example.com'', exclude_subdomains = None\<rparr>"

definition two_pages :: fetcher where
  "two_pages i u sel =
     (if i = 0 then Inr [Element (Inr ''http://sub.example.com/x''), Element (Inr ''example.com/''),
                         Element (Inr ''sub.example.com/y'')]
      else if i = 1 then Inr [Element (Inr ''b.example.com/''),
                              Element (Inr ''http://sub.example.com/'')]
      else Inr [])"


definition offline :: fetcher where
  "offline i u sel = Inl (Exception ''offline'')"


text \<open>A stand-in for the patterns that the examples never reach.\<close>

definition no_re :: re_module where
  "no_re p = Inl Re_error"

definition site_io :: plugin where
  "site_io = \<lparr>meta = google, domain = ''site.io'', exclude_subdomains = Some [''old.site.io'']\<rparr>"

definition empty_domain :: plugin where
  "empty_domain = \<lparr>meta = google, domain = [], exclude_subdomains = None\<rparr>"

definition paren_domain :: plugin where
  "paren_domain = \<lparr>meta = google, domain = ''('', exclude_subdomains = None\<rparr>"

definition no_fragments :: fetcher where
  "no_fragments i u sel = Inr []"

text \<open>
  Three class statements in a chain: a concrete plugin \<open>classA\<close>, an abstract plugin
  \<open>classB\<close> derived from it, and a concrete plugin \<open>classC\<close> derived from \<open>classB\<close>
  whose \<^verbatim>\<open>Meta\<close> does not declare \<^verbatim>\<open>search_url\<close>; and \<open>classD\<close>, with the same
  \<^verbatim>\<open>Meta\<close>, derived from \<open>classA\<close> directly.
\<close>

definition declA :: namespace where
  "declA = [''search_url'' \<mapsto> PyStr ''http://a.example/search'',
            ''subdomains_selector'' \<mapsto> PyStr ''cite'']"

definition declB :: namespace where
  "declB = [''abstract'' \<mapsto> PyBool True]"

definition declC :: namespace where
  "declC = [''subdomains_selector'' \<mapsto> PyStr ''h3'']"

definition classA :: pclass where "classA = Subclass PluginBase (Some declA)"
definition classB :: pclass where "classB = Subclass classA (Some declB)"
definition classC :: pclass where "classC = Subclass classB (Some declC)"

definition meta_attr :: "error + namespace option \<Rightarrow> string \<Rightarrow> pyval option" where
  "meta_attr c attr = (case c of Inr (Some m) \<Rightarrow> m attr | _ \<Rightarrow> None)"

definition classD :: pclass where "classD = Subclass classA (Some declC)"

section \<open>Properties\<close>

subsection \<open>Deduplication\<close>

lemma set_without_duplicates [simp]: "set (without_duplicates xs) = set xs"
  by (induction xs rule: without_duplicates.induct) auto

lemma distinct_without_duplicates [simp]: "distinct (without_duplicates xs)"
  by (induction xs rule: without_duplicates.induct) auto

lemma without_duplicates_filter: "without_duplicates (filter P xs) = filter P (without_duplicates xs)"
proof (induction xs rule: without_duplicates.induct)
  case 1
  then show ?case by simp
next
  case (2 x xs)
  have "removeAll x (filter P xs) = filter P (removeAll x xs)"
    by (simp add: removeAll_filter_not_eq filter_filter conj_commute)
  with 2 show ?case by (auto simp: removeAll_filter_not_eq[symmetric])
qed

lemma without_duplicates_append:
  "without_duplicates (xs @ ys) = without_duplicates xs @ without_duplicates (filter (\<lambda>y. y \<notin> set xs) ys)"
proof (induction xs arbitrary: ys rule: without_duplicates.induct)
  case 1
  then show ?case by simp
next
  case (2 x xs)
  have "filter (\<lambda>y. y \<notin> set (removeAll x xs)) (removeAll x ys) = filter (\<lambda>y. y \<notin> set (x # xs)) ys"
    by (induction ys) auto
  with 2[of "removeAll x ys"] show ?case by simp
qed

lemma without_duplicates_distinct: "distinct xs \<Longrightarrow> without_duplicates xs = xs"
  by (induction xs rule: without_duplicates.induct) (auto simp: removeAll_id)

lemma without_duplicates_absorb:
  "without_duplicates (without_duplicates xs @ ys) = without_duplicates (xs @ ys)"
  by (simp add: without_duplicates_append[of "without_duplicates xs"] without_duplicates_append[of xs] without_duplicates_distinct)

subsection \<open>The loop and its passes\<close>

lemma while_True_ended:
  "ended (iterations re fetch self n s) = Some out \<Longrightarrow> while_True re fetch self s = Some out"
proof (induction n arbitrary: s)
  case 0
  then show ?case by simp
next
  case (Suc n)
  show ?case
  proof (cases "iteration re fetch self s")
    case (Continue s')
    with Suc show ?thesis by (subst while_True.simps) simp
  next
    case (Break r s')
    with Suc.prems show ?thesis by (subst while_True.simps) simp
  next
    case (Raise e s')
    with Suc.prems show ?thesis by (subst while_True.simps) simp
  qed
qed

lemma while_True_returns:
  assumes "while_True re fetch self s = Some out"
  shows "\<exists>n. ended (iterations re fetch self (Suc n) s) = Some out"
proof (rule while_True.raw_induct
    [where P = "\<lambda>re f p s out. \<exists>n. ended (iterations re f p (Suc n) s) = Some out",
      OF _ assms])
  fix loop :: "re_module \<Rightarrow> fetcher \<Rightarrow> plugin \<Rightarrow> loop_state \<Rightarrow> outcome option"
  fix re f p s out
  assume IH: "\<And>re f p s out. loop re f p s = Some out \<Longrightarrow>
      \<exists>n. ended (iterations re f p (Suc n) s) = Some out"
  assume body: "(case iteration re f p s of
        Continue s' \<Rightarrow> loop re f p s'
      | Break r s' \<Rightarrow> Some (Returned r (requested s') (collected_subdomains s'))
      | Raise e s' \<Rightarrow> Some (Raised e (requested s'))) = Some out"
  show "\<exists>n. ended (iterations re f p (Suc n) s) = Some out"
  proof (cases "iteration re f p s")
    case (Continue s')
    with body have "loop re f p s' = Some out" by simp
    from IH[OF this] obtain n where "ended (iterations re f p (Suc n) s') = Some out" by blast
    with Continue have "ended (iterations re f p (Suc (Suc n)) s) = Some out" by simp
    then show ?thesis by blast
  next
    case (Break r s')
    with body have "ended (iterations re f p (Suc 0) s) = Some out" by simp
    then show ?thesis by blast
  next
    case (Raise e s')
    with body have "ended (iterations re f p (Suc 0) s) = Some out" by simp
    then show ?thesis by blast
  qed
qed

lemma iterations_add:
  "iterations re fetch self m s = Continue s' \<Longrightarrow>
   iterations re fetch self (m + n) s = iterations re fetch self n s'"
  by (induction m arbitrary: s) (auto split: step.splits)

lemma iterations_Suc_end:
  "iterations re fetch self m s = Continue s' \<Longrightarrow>
   iterations re fetch self (Suc m) s = iteration re fetch self s'"
  using iterations_add[of re fetch self m s s' "Suc 0"] by (simp split: step.splits)


lemma iteration_Continue:
  assumes "iteration re fetch self s = Continue s'"
  shows "index s' = index s + 1"
    and "requested s' = requested s @ [url self (Some (collected_subdomains s))]"
    and "collected_subdomains s' =
           removeAll (domain self) (without_duplicates (collected_subdomains s @ cleaned re fetch self s))"
    and "cleaned re fetch self s \<noteq> []"
  using assms
  by (auto simp: iteration_def cleaned_def Let_def distinct_remove1_removeAll removeAll_id
      split: sum.splits if_splits)

lemma iteration_Break:
  assumes "iteration re fetch self s = Break r s'"
  shows "index s' = index s + 1"
    and "requested s' = requested s @ [url self (Some (collected_subdomains s))]"
    and "collected_subdomains s' = collected_subdomains s"
  using assms
  by (auto simp: iteration_def Let_def split: sum.splits if_splits)

lemma iteration_Raise:
  assumes "iteration re fetch self s = Raise e s'"
  shows "index s' = index s + 1"
    and "requested s' = requested s @ [url self (Some (collected_subdomains s))]"
    and "collected_subdomains s' = collected_subdomains s"
  using assms
  by (auto simp: iteration_def Let_def split: sum.splits if_splits)


lemma iteration_requested:
  "\<exists>s'. requested s' = requested s @ [url self (Some (collected_subdomains s))] \<and>
        (iteration re fetch self s = Continue s' \<or>
         (\<exists>r. iteration re fetch self s = Break r s') \<or>
         (\<exists>e. iteration re fetch self s = Raise e s'))"
proof (cases "iteration re fetch self s")
  case (Continue s')
  with iteration_Continue(2)[OF Continue] show ?thesis by blast
next
  case (Break r s')
  with iteration_Break(2)[OF Break] show ?thesis by blast
next
  case (Raise e s')
  with iteration_Raise(2)[OF Raise] show ?thesis by blast
qed

lemma ended_requests:
  "ended (iterations re fetch self (Suc n) s) = Some out \<Longrightarrow>
   \<exists>rest. requests out = requested s @ url self (Some (collected_subdomains s)) # rest"
proof (induction n arbitrary: s)
  case 0
  then show ?case
    by (cases "iteration re fetch self s") (auto dest: iteration_Break iteration_Raise)
next
  case (Suc n)
  show ?case
  proof (cases "iteration re fetch self s")
    case (Continue s1)
    with Suc.prems have "ended (iterations re fetch self (Suc n) s1) = Some out"
      by simp
    from Suc.IH[OF this] iteration_Continue(2)[OF Continue] show ?thesis by auto
  next
    case (Break r' s')
    with Suc.prems show ?thesis by (auto dest: iteration_Break)
  next
    case (Raise e s')
    with Suc.prems show ?thesis by (auto dest: iteration_Raise)
  qed
qed


lemma iteration_keeps_invariant:
  assumes "iteration re fetch self s = Continue s'"
  shows "distinct (collected_subdomains s') \<and> domain self \<notin> set (collected_subdomains s')"
  using iteration_Continue(3)[OF assms] by (simp add: distinct_removeAll)

lemma iterations_collected:
  assumes "iterations re fetch self n s = Continue s'"
    and "distinct (collected_subdomains s)" and "domain self \<notin> set (collected_subdomains s)"
  shows "collected_subdomains s' =
           without_duplicates (filter (\<lambda>x. x \<noteq> domain self)
             (collected_subdomains s @ harvest re fetch self n s))
         \<and> distinct (collected_subdomains s') \<and> domain self \<notin> set (collected_subdomains s')"
  using assms
proof (induction n arbitrary: s)
  case 0
  then have "filter (\<lambda>x. x \<noteq> domain self) (collected_subdomains s') = collected_subdomains s'"
    by (auto simp: filter_id_conv)
  with 0 show ?case by (simp add: without_duplicates_distinct)
next
  case (Suc n)
  then obtain s1 where s1: "iteration re fetch self s = Continue s1"
    by (cases "iteration re fetch self s") auto
  with Suc.prems have n: "iterations re fetch self n s1 = Continue s'" by simp
  note inv = iteration_keeps_invariant[OF s1]
  from Suc.IH[OF n] inv
  have IH: "collected_subdomains s' =
      without_duplicates (filter (\<lambda>x. x \<noteq> domain self)
        (collected_subdomains s1 @ harvest re fetch self n s1))"
    and rest: "distinct (collected_subdomains s') \<and> domain self \<notin> set (collected_subdomains s')"
    by simp_all
  let ?P = "\<lambda>x. x \<noteq> domain self"
  have c1: "collected_subdomains s1 =
      filter ?P (without_duplicates (collected_subdomains s @ cleaned re fetch self s))"
    using iteration_Continue(3)[OF s1] by (simp add: removeAll_filter_not_eq) (metis)
  have c2: "collected_subdomains s1 =
      without_duplicates (filter ?P (collected_subdomains s @ cleaned re fetch self s))"
    using c1 by (simp only: without_duplicates_filter)
  have "filter ?P (collected_subdomains s1) = collected_subdomains s1"
    using inv by (auto simp: filter_id_conv)
  then have "without_duplicates (filter ?P (collected_subdomains s1 @ harvest re fetch self n s1)) =
        without_duplicates (collected_subdomains s1 @ filter ?P (harvest re fetch self n s1))"
    by simp
  also have "\<dots> =
        without_duplicates (without_duplicates (filter ?P (collected_subdomains s @ cleaned re fetch self s))
           @ filter ?P (harvest re fetch self n s1))"
    by (subst c2) (rule refl)
  also have "\<dots> = without_duplicates (filter ?P (collected_subdomains s @ cleaned re fetch self s)
           @ filter ?P (harvest re fetch self n s1))"
    by (rule without_duplicates_absorb)
  also have "\<dots> = without_duplicates (filter ?P
      (collected_subdomains s @ harvest re fetch self (Suc n) s))"
    using s1 by simp
  finally show ?case using IH rest by simp
qed

lemma iterations_left:
  "iterations re fetch self (Suc n) s = st \<Longrightarrow> (\<forall>s'. st \<noteq> Continue s') \<Longrightarrow>
   \<exists>k s1. k \<le> n \<and> iterations re fetch self k s = Continue s1 \<and> iteration re fetch self s1 = st"
proof (induction n arbitrary: s)
  case 0
  then have "0 \<le> (0::nat) \<and> iterations re fetch self 0 s = Continue s \<and> iteration re fetch self s = st"
    by (cases "iteration re fetch self s") auto
  then show ?case by blast
next
  case (Suc n)
  show ?case
  proof (cases "iteration re fetch self s")
    case (Continue s1)
    with Suc.prems have "iterations re fetch self (Suc n) s1 = st" by simp
    from Suc.IH[OF this Suc.prems(2)] obtain k s2 where
      "k \<le> n" "iterations re fetch self k s1 = Continue s2" "iteration re fetch self s2 = st"
      by blast
    with Continue have "Suc k \<le> Suc n \<and> iterations re fetch self (Suc k) s = Continue s2 \<and>
      iteration re fetch self s2 = st" by simp
    then show ?thesis by blast
  next
    case (Break r' s1)
    with Suc.prems have "0 \<le> Suc n \<and> iterations re fetch self 0 s = Continue s \<and>
      iteration re fetch self s = st" by simp
    then show ?thesis by blast
  next
    case (Raise e s1)
    with Suc.prems have "0 \<le> Suc n \<and> iterations re fetch self 0 s = Continue s \<and>
      iteration re fetch self s = st" by simp
    then show ?thesis by blast
  qed
qed

lemma run_returns:
  assumes "run re fetch self = Some (Returned r reqs res)"
  shows "\<exists>k s1 s'. iterations re fetch self k initial = Continue s1 \<and>
           iteration re fetch self s1 = Break r s' \<and> reqs = requested s' \<and>
           res = collected_subdomains s1"
proof -
  from assms obtain n where
    n: "ended (iterations re fetch self (Suc n) initial) = Some (Returned r reqs res)"
    unfolding run_def by (blast dest: while_True_returns)
  then obtain s' where s': "iterations re fetch self (Suc n) initial = Break r s'"
    "reqs = requested s'" "res = collected_subdomains s'"
    by (cases "iterations re fetch self (Suc n) initial") auto
  from iterations_left[OF s'(1)] obtain k s1 where
    "iterations re fetch self k initial = Continue s1" "iteration re fetch self s1 = Break r s'"
    by auto
  with s' iteration_Break(3)[of re fetch self s1 r s'] show ?thesis by auto
qed


lemma run_first_request:
  assumes "run re fetch self = Some out"
  shows "\<exists>rest. requests out = url self (Some []) # rest"
proof -
  from assms obtain n where "ended (iterations re fetch self (Suc n) initial) = Some out"
    unfolding run_def by (blast dest: while_True_returns)
  from ended_requests[OF this] show ?thesis by (simp add: initial_def)
qed



subsection \<open>The matcher\<close>

lemma match_atoms_Some:
  "match_atoms A s = Some s2 \<longleftrightarrow> (\<exists>M. s = M @ s2 \<and> list_all2 atom_matches A M)"
proof (induction A s rule: match_atoms.induct)
  case (1 s)
  then show ?case by auto
next
  case (2 a as)
  then show ?case by (auto simp: list_all2_Cons1)
next
  case (3 a as c cs)
  show ?case
  proof (cases "atom_matches a c")
    case True
    with 3 show ?thesis
      by (auto simp: list_all2_Cons1 Cons_eq_append_conv)
  next
    case False
    then show ?thesis
      by (auto simp: list_all2_Cons1 Cons_eq_append_conv)
  qed
qed

lemma match_lit_Some: "match_lit l s = Some s2 \<longleftrightarrow> s = l @ s2"
  by (induction l s rule: match_lit.induct) auto

lemma domain_atoms_fits:
  "domain_atoms D = Some A \<Longrightarrow> list_all2 atom_matches A M = fits D M"
proof (induction D M arbitrary: A rule: fits.induct)
  case 1
  then show ?case by simp
next
  case (2 d ds m ms)
  then show ?case by (auto split: if_splits simp: list_all2_Cons1)
next
  case (3 m ms)
  then show ?case by simp
next
  case (4 d ds)
  then show ?case by (auto split: if_splits)
qed

lemma dot_star_sound:
  "dot_star k s = Some r \<Longrightarrow> \<exists>X Y. s = X @ Y \<and> newline \<notin> set X \<and> k Y = Some r"
proof (induction s)
  case Nil
  then show ?case by simp
next
  case (Cons c cs)
  show ?case
  proof (cases "c \<noteq> newline \<and> dot_star k cs \<noteq> None")
    case True
    with Cons.prems have "dot_star k cs = Some r" by auto
    from Cons.IH[OF this] obtain X Y where "cs = X @ Y" "newline \<notin> set X" "k Y = Some r"
      by blast
    with True have "c # cs = (c # X) @ Y \<and> newline \<notin> set (c # X) \<and> k Y = Some r" by auto
    then show ?thesis by blast
  next
    case False
    with Cons.prems have "k (c # cs) = Some r" by (auto split: if_splits option.splits)
    then have "c # cs = [] @ (c # cs) \<and> newline \<notin> set [] \<and> k (c # cs) = Some r" by simp
    then show ?thesis by blast
  qed
qed

lemma dot_star_complete:
  "newline \<notin> set X \<Longrightarrow> k Y \<noteq> None \<Longrightarrow> dot_star k (X @ Y) \<noteq> None"
proof (induction X)
  case Nil
  then show ?case by (cases Y) (auto split: option.splits)
next
  case (Cons c X)
  then show ?case by (auto split: option.splits)
qed

lemma subdomain_group_sound:
  assumes "subdomain_group A s = Some g"
  shows "\<exists>X M c R. s = X @ M @ c # R \<and> newline \<notin> set X \<and> list_all2 atom_matches A M \<and>
           sep c \<and> g = X @ M"
proof -
  from assms obtain X Y where s: "s = X @ Y" and X: "newline \<notin> set X"
    and k: "(case match_atoms A Y of None \<Rightarrow> None | Some s2 \<Rightarrow> after_group s s2) = Some g"
    unfolding subdomain_group_def by (blast dest: dot_star_sound)
  from k obtain s2 where m: "match_atoms A Y = Some s2" and a: "after_group s s2 = Some g"
    by (auto split: option.splits)
  from m obtain M where Y: "Y = M @ s2" and M: "list_all2 atom_matches A M"
    by (auto simp: match_atoms_Some)
  from a obtain c R where s2: "s2 = c # R" and c: "sep c"
    and g: "g = take (length s - length s2) s"
    by (auto simp: after_group_def split: list.splits if_splits)
  from g s Y have "g = X @ M" by simp
  with s Y s2 X M c show ?thesis by auto
qed

lemma subdomain_group_complete:
  assumes "newline \<notin> set X" and "list_all2 atom_matches A M" and "sep c"
  shows "subdomain_group A (X @ M @ c # R) \<noteq> None"
proof -
  have "match_atoms A (M @ c # R) = Some (c # R)"
    using assms(2) by (auto simp: match_atoms_Some)
  then have "(case match_atoms A (M @ c # R) of None \<Rightarrow> None
      | Some s2 \<Rightarrow> after_group (X @ M @ c # R) s2) \<noteq> None"
    using assms(3) by (simp add: after_group_def)
  from dot_star_complete[OF assms(1), of
      "\<lambda>s1. case match_atoms A s1 of None \<Rightarrow> None | Some s2 \<Rightarrow> after_group (X @ M @ c # R) s2",
      OF this]
  show ?thesis unfolding subdomain_group_def .
qed

lemma regexp_match_sound:
  assumes "regexp_match A t = Some g"
  shows "\<exists>P X M c R. t = P @ X @ M @ c # R \<and>
           (P = [] \<or> (\<exists>Q. Q \<noteq> [] \<and> newline \<notin> set Q \<and> P = Q @ ''://'')) \<and>
           newline \<notin> set X \<and> list_all2 atom_matches A M \<and> sep c \<and> g = X @ M"
proof (cases "dot_plus (\<lambda>s1. case match_lit ''://'' s1 of None \<Rightarrow> None
                             | Some s2 \<Rightarrow> subdomain_group A s2) t")
  case None
  with assms have "subdomain_group A t = Some g" by (simp add: regexp_match_def)
  from subdomain_group_sound[OF this] obtain X M c R where
    "t = X @ M @ c # R" "newline \<notin> set X" "list_all2 atom_matches A M" "sep c" "g = X @ M"
    by blast
  then have "t = [] @ X @ M @ c # R \<and>
           ([] = [] \<or> (\<exists>Q. Q \<noteq> [] \<and> newline \<notin> set Q \<and> [] = Q @ ''://'')) \<and>
           newline \<notin> set X \<and> list_all2 atom_matches A M \<and> sep c \<and> g = X @ M" by simp
  then show ?thesis by blast
next
  case (Some g')
  with assms have g': "g' = g" by (simp add: regexp_match_def)
  from Some obtain c0 cs where t: "t = c0 # cs" and c0: "c0 \<noteq> newline"
    and ds: "dot_star (\<lambda>s1. case match_lit ''://'' s1 of None \<Rightarrow> None
                             | Some s2 \<Rightarrow> subdomain_group A s2) cs = Some g'"
    by (cases t) (auto split: if_splits)
  from dot_star_sound[OF ds] obtain X0 Y where cs: "cs = X0 @ Y" and X0: "newline \<notin> set X0"
    and k: "(case match_lit ''://'' Y of None \<Rightarrow> None | Some s2 \<Rightarrow> subdomain_group A s2) = Some g'"
    by blast
  from k obtain s2 where Y: "Y = ''://'' @ s2" and sg: "subdomain_group A s2 = Some g"
    using g' by (auto split: option.splits simp: match_lit_Some)
  from subdomain_group_sound[OF sg] obtain X M c R where
    s2: "s2 = X @ M @ c # R" "newline \<notin> set X" "list_all2 atom_matches A M" "sep c" "g = X @ M"
    by blast
  let ?Q = "c0 # X0"
  have "t = (?Q @ ''://'') @ X @ M @ c # R" using t cs Y s2(1) by simp
  moreover have "?Q \<noteq> [] \<and> newline \<notin> set ?Q" using c0 X0 by simp
  ultimately have "t = (?Q @ ''://'') @ X @ M @ c # R \<and>
           (?Q @ ''://'' = [] \<or> (\<exists>Q. Q \<noteq> [] \<and> newline \<notin> set Q \<and> ?Q @ ''://'' = Q @ ''://'')) \<and>
           newline \<notin> set X \<and> list_all2 atom_matches A M \<and> sep c \<and> g = X @ M"
    using s2 by blast
  then show ?thesis by blast
qed

lemma regexp_match_complete:
  assumes "newline \<notin> set X" and "list_all2 atom_matches A M" and "sep c"
  shows "regexp_match A (X @ M @ c # R) \<noteq> None"
  using subdomain_group_complete[OF assms, of R]
  by (auto simp: regexp_match_def split: option.splits)

lemma clean_single_eq:
  "domain_atoms D = Some A \<Longrightarrow>
   clean re D [T] =
     Inr (case regexp_match A T of None \<Rightarrow> [] | Some g \<Rightarrow> if g \<noteq> [] then [g] else [])"
  by (simp add: clean_def re_compile_def split: option.splits)

lemma fits_self: "fits D D"
  by (induction D) (auto simp: newline_def)

lemma fits_nonempty: "fits D M \<Longrightarrow> D \<noteq> [] \<Longrightarrow> M \<noteq> []"
  by (cases D; cases M) auto

lemma spec_strip_scheme_suffix: "\<exists>P. t = P @ spec_strip_scheme t"
proof -
  let ?p = "\<lambda>c. c \<noteq> CHR '':'' \<and> \<not> sep c"
  show ?thesis
  proof (cases "takeWhile ?p t \<noteq> [] \<and> prefix ''://'' (dropWhile ?p t)")
    case True
    then have "spec_strip_scheme t = drop 3 (dropWhile ?p t)"
      by (simp add: spec_strip_scheme_def Let_def)
    moreover have "t = (takeWhile ?p t @ take 3 (dropWhile ?p t)) @ drop 3 (dropWhile ?p t)"
      by simp
    ultimately have "t = (takeWhile ?p t @ take 3 (dropWhile ?p t)) @ spec_strip_scheme t"
      by simp
    then show ?thesis ..
  next
    case False
    then have "spec_strip_scheme t = t"
      unfolding spec_strip_scheme_def Let_def by (simp only: if_False)
    then have "t = [] @ spec_strip_scheme t" by simp
    then show ?thesis ..
  qed
qed

lemma spec_accepts_decomposition:
  assumes "spec_accepts D T"
  shows "\<exists>X c R. T = X @ D @ c # R \<and> sep c"
proof -
  let ?s = "spec_strip_scheme T"
  from spec_strip_scheme_suffix obtain P where P: "T = P @ ?s" by blast
  from assms have d: "dropWhile (\<lambda>c. \<not> sep c) ?s \<noteq> []" and suf: "suffix D (spec_host T)"
    by (simp_all add: spec_accepts_def)
  from d obtain c R where cR: "dropWhile (\<lambda>c. \<not> sep c) ?s = c # R" by (cases "dropWhile (\<lambda>c. \<not> sep c) ?s") auto
  with hd_dropWhile[OF d] have c: "sep c" by simp
  from suf obtain X0 where X0: "spec_host T = X0 @ D" by (auto simp: suffix_def)
  have "?s = spec_host T @ c # R"
    using takeWhile_dropWhile_id[of "\<lambda>c. \<not> sep c" ?s] cR by (simp add: spec_host_def)
  with X0 have "?s = X0 @ D @ c # R" by simp
  with P have "T = (P @ X0) @ D @ c # R" by simp
  with c show ?thesis by blast
qed

subsection \<open>The greedy choice of the matcher\<close>

lemma dot_star_None:
  "dot_star k s = None \<longleftrightarrow>
   (\<forall>n\<le>length s. newline \<notin> set (take n s) \<longrightarrow> k (drop n s) = None)"
proof (induction s)
  case Nil
  then show ?case by simp
next
  case (Cons c cs)
  show ?case
  proof (cases "c = newline")
    case True
    have "(\<forall>n\<le>length (c # cs). newline \<notin> set (take n (c # cs)) \<longrightarrow> k (drop n (c # cs)) = None)
        \<longleftrightarrow> k (c # cs) = None"
    proof
      assume "\<forall>n\<le>length (c # cs). newline \<notin> set (take n (c # cs)) \<longrightarrow> k (drop n (c # cs)) = None"
      from this[rule_format, of 0] show "k (c # cs) = None" by simp
    next
      assume k: "k (c # cs) = None"
      show "\<forall>n\<le>length (c # cs). newline \<notin> set (take n (c # cs)) \<longrightarrow> k (drop n (c # cs)) = None"
      proof (intro allI impI)
        fix n assume "n \<le> length (c # cs)" "newline \<notin> set (take n (c # cs))"
        with True have "n = 0" by (cases n) auto
        with k show "k (drop n (c # cs)) = None" by simp
      qed
    qed
    with True show ?thesis by simp
  next
    case False
    have "(\<forall>n\<le>length (c # cs). newline \<notin> set (take n (c # cs)) \<longrightarrow> k (drop n (c # cs)) = None)
        \<longleftrightarrow> k (c # cs) = None \<and>
            (\<forall>n\<le>length cs. newline \<notin> set (take n cs) \<longrightarrow> k (drop n cs) = None)"
    proof
      assume a: "\<forall>n\<le>length (c # cs). newline \<notin> set (take n (c # cs)) \<longrightarrow> k (drop n (c # cs)) = None"
      from a[rule_format, of 0] have "k (c # cs) = None" by simp
      moreover have "k (drop n cs) = None" if "n \<le> length cs" "newline \<notin> set (take n cs)" for n
        using a[rule_format, of "Suc n"] that False by simp
      ultimately show "k (c # cs) = None \<and>
            (\<forall>n\<le>length cs. newline \<notin> set (take n cs) \<longrightarrow> k (drop n cs) = None)" by blast
    next
      assume b: "k (c # cs) = None \<and>
            (\<forall>n\<le>length cs. newline \<notin> set (take n cs) \<longrightarrow> k (drop n cs) = None)"
      show "\<forall>n\<le>length (c # cs). newline \<notin> set (take n (c # cs)) \<longrightarrow> k (drop n (c # cs)) = None"
      proof (intro allI impI)
        fix n assume n: "n \<le> length (c # cs)" "newline \<notin> set (take n (c # cs))"
        show "k (drop n (c # cs)) = None"
        proof (cases n)
          case 0
          with b show ?thesis by simp
        next
          case (Suc m)
          with n b show ?thesis by simp
        qed
      qed
    qed
    with False Cons.IH show ?thesis by (auto split: option.splits)
  qed
qed

lemma dot_star_longest:
  "dot_star k s = Some r \<Longrightarrow>
   \<exists>n\<le>length s. newline \<notin> set (take n s) \<and> k (drop n s) = Some r \<and>
     (\<forall>n'. n < n' \<and> n' \<le> length s \<and> newline \<notin> set (take n' s) \<longrightarrow> k (drop n' s) = None)"
proof (induction s)
  case Nil
  then show ?case by simp
next
  case (Cons c cs)
  show ?case
  proof (cases "c \<noteq> newline \<and> dot_star k cs \<noteq> None")
    case True
    with Cons.prems have "dot_star k cs = Some r" by auto
    from Cons.IH[OF this] obtain n where n: "n \<le> length cs" "newline \<notin> set (take n cs)"
      "k (drop n cs) = Some r"
      "\<forall>n'. n < n' \<and> n' \<le> length cs \<and> newline \<notin> set (take n' cs) \<longrightarrow> k (drop n' cs) = None"
      by blast
    have "\<forall>n'. Suc n < n' \<and> n' \<le> length (c # cs) \<and> newline \<notin> set (take n' (c # cs)) \<longrightarrow>
        k (drop n' (c # cs)) = None"
    proof (intro allI impI)
      fix n' assume a: "Suc n < n' \<and> n' \<le> length (c # cs) \<and> newline \<notin> set (take n' (c # cs))"
      then obtain m where m: "n' = Suc m" by (cases n') auto
      with a n(4)[rule_format, of m] show "k (drop n' (c # cs)) = None" by simp
    qed
    with n True have "Suc n \<le> length (c # cs) \<and> newline \<notin> set (take (Suc n) (c # cs)) \<and>
      k (drop (Suc n) (c # cs)) = Some r \<and>
      (\<forall>n'. Suc n < n' \<and> n' \<le> length (c # cs) \<and> newline \<notin> set (take n' (c # cs)) \<longrightarrow>
        k (drop n' (c # cs)) = None)" by auto
    then show ?thesis by blast
  next
    case False
    with Cons.prems have r: "k (c # cs) = Some r" by (auto split: if_splits option.splits)
    have "\<forall>n'. 0 < n' \<and> n' \<le> length (c # cs) \<and> newline \<notin> set (take n' (c # cs)) \<longrightarrow>
        k (drop n' (c # cs)) = None"
    proof (intro allI impI)
      fix n' assume a: "0 < n' \<and> n' \<le> length (c # cs) \<and> newline \<notin> set (take n' (c # cs))"
      then obtain m where m: "n' = Suc m" by (cases n') auto
      with a have c: "c \<noteq> newline" and mm: "m \<le> length cs" "newline \<notin> set (take m cs)" by auto
      with False have "dot_star k cs = None" by simp
      with mm have "k (drop m cs) = None" by (simp add: dot_star_None)
      with m show "k (drop n' (c # cs)) = None" by simp
    qed
    with r have "0 \<le> length (c # cs) \<and> newline \<notin> set (take 0 (c # cs)) \<and>
      k (drop 0 (c # cs)) = Some r \<and>
      (\<forall>n'. 0 < n' \<and> n' \<le> length (c # cs) \<and> newline \<notin> set (take n' (c # cs)) \<longrightarrow>
        k (drop n' (c # cs)) = None)" by simp
    then show ?thesis by blast
  qed
qed

lemma dot_star_Some:
  "dot_star k s = Some r \<longleftrightarrow>
   (\<exists>n\<le>length s. newline \<notin> set (take n s) \<and> k (drop n s) = Some r \<and>
     (\<forall>n'. n < n' \<and> n' \<le> length s \<and> newline \<notin> set (take n' s) \<longrightarrow> k (drop n' s) = None))"
proof
  assume "dot_star k s = Some r"
  then show "\<exists>n\<le>length s. newline \<notin> set (take n s) \<and> k (drop n s) = Some r \<and>
     (\<forall>n'. n < n' \<and> n' \<le> length s \<and> newline \<notin> set (take n' s) \<longrightarrow> k (drop n' s) = None)"
    by (rule dot_star_longest)
next
  assume "\<exists>n\<le>length s. newline \<notin> set (take n s) \<and> k (drop n s) = Some r \<and>
     (\<forall>n'. n < n' \<and> n' \<le> length s \<and> newline \<notin> set (take n' s) \<longrightarrow> k (drop n' s) = None)"
  then obtain n where n: "n \<le> length s" "newline \<notin> set (take n s)" "k (drop n s) = Some r"
    and nmax: "\<forall>n'. n < n' \<and> n' \<le> length s \<and> newline \<notin> set (take n' s) \<longrightarrow> k (drop n' s) = None"
    by blast
  from n have "dot_star k s \<noteq> None" by (auto simp: dot_star_None)
  then obtain r2 where r2: "dot_star k s = Some r2" by auto
  from dot_star_longest[OF r2] obtain n2 where n2: "n2 \<le> length s" "newline \<notin> set (take n2 s)"
    "k (drop n2 s) = Some r2"
    and n2max: "\<forall>n'. n2 < n' \<and> n' \<le> length s \<and> newline \<notin> set (take n' s) \<longrightarrow> k (drop n' s) = None"
    by blast
  have "\<not> n < n2" using nmax[rule_format, of n2] n2 by auto
  moreover have "\<not> n2 < n" using n2max[rule_format, of n] n by auto
  ultimately have "n = n2" by simp
  with n n2 r2 show "dot_star k s = Some r" by simp
qed

lemma match_atoms_eq:
  "domain_atoms D = Some A \<Longrightarrow>
   match_atoms A s =
     (if length D \<le> length s \<and> fits D (take (length D) s) then Some (drop (length D) s)
      else None)"
proof (induction D s arbitrary: A rule: fits.induct)
  case 1
  then show ?case by simp
next
  case (2 d ds m ms)
  then show ?case by (auto split: if_splits)
next
  case (3 m ms)
  then show ?case by simp
next
  case (4 d ds)
  then show ?case by (auto split: if_splits)
qed

lemma match_lit_eq:
  "match_lit l y =
     (if length l \<le> length y \<and> take (length l) y = l then Some (drop (length l) y) else None)"
  by (induction l y rule: match_lit.induct) auto

lemma group_end_eq:
  assumes "domain_atoms D = Some A" and "n \<le> length s"
  shows "(case match_atoms A (drop n s) of None \<Rightarrow> None | Some s2 \<Rightarrow> after_group s s2) =
         (if n + length D < length s \<and> fits D (take (length D) (drop n s)) \<and>
             sep (s ! (n + length D))
          then Some (take (n + length D) s) else None)"
proof (cases "n + length D < length s")
  case True
  then have d: "drop (n + length D) s = s ! (n + length D) # drop (Suc (n + length D)) s"
    by (simp add: Cons_nth_drop_Suc)
  have "drop (length D) (drop n s) = drop (n + length D) s" by (simp add: add.commute)
  with d have "after_group s (drop (length D) (drop n s)) =
      (if sep (s ! (n + length D)) then Some (take (n + length D) s) else None)"
    using True by (simp add: after_group_def)
  with True show ?thesis by (simp add: match_atoms_eq[OF assms(1)])
next
  case False
  show ?thesis
  proof (cases "length D \<le> length (drop n s)")
    case True
    with False assms(2) have "drop (length D) (drop n s) = []" by simp
    then have "after_group s (drop (length D) (drop n s)) = None" by (simp add: after_group_def)
    with False show ?thesis by (simp add: match_atoms_eq[OF assms(1)])
  next
    case False
    then show ?thesis using \<open>\<not> n + length D < length s\<close>
      by (simp add: match_atoms_eq[OF assms(1)])
  qed
qed

lemma subdomain_group_None:
  assumes "domain_atoms D = Some A"
  shows "subdomain_group A s = None \<longleftrightarrow> (\<forall>n. \<not> candidate D s n)"
proof -
  let ?k = "\<lambda>s1. case match_atoms A s1 of None \<Rightarrow> None | Some s2 \<Rightarrow> after_group s s2"
  have "(\<forall>n\<le>length s. newline \<notin> set (take n s) \<longrightarrow> ?k (drop n s) = None) \<longleftrightarrow>
        (\<forall>n. \<not> candidate D s n)"
  proof
    assume a: "\<forall>n\<le>length s. newline \<notin> set (take n s) \<longrightarrow> ?k (drop n s) = None"
    show "\<forall>n. \<not> candidate D s n"
    proof
      fix n
      show "\<not> candidate D s n"
      proof
        assume c: "candidate D s n"
        then have "n \<le> length s" "newline \<notin> set (take n s)" by (simp_all add: candidate_def)
        with a have "?k (drop n s) = None" by blast
        with c \<open>n \<le> length s\<close> show False
          by (simp add: group_end_eq[OF assms] candidate_def)
      qed
    qed
  next
    assume b: "\<forall>n. \<not> candidate D s n"
    show "\<forall>n\<le>length s. newline \<notin> set (take n s) \<longrightarrow> ?k (drop n s) = None"
    proof (intro allI impI)
      fix n assume n: "n \<le> length s" "newline \<notin> set (take n s)"
      from b have "\<not> candidate D s n" by blast
      with n show "?k (drop n s) = None"
        by (simp add: group_end_eq[OF assms] candidate_def)
    qed
  qed
  then show ?thesis unfolding subdomain_group_def by (simp only: dot_star_None)
qed

lemma subdomain_group_Some:
  assumes "domain_atoms D = Some A"
  shows "subdomain_group A s = Some g \<longleftrightarrow> greedy_host D s g"
proof -
  let ?k = "\<lambda>s1. case match_atoms A s1 of None \<Rightarrow> None | Some s2 \<Rightarrow> after_group s s2"
  have k: "?k (drop n s) =
      (if n + length D < length s \<and> fits D (take (length D) (drop n s)) \<and>
          sep (s ! (n + length D))
       then Some (take (n + length D) s) else None)" if "n \<le> length s" for n
    using group_end_eq[OF assms that] .
  have "(\<exists>n\<le>length s. newline \<notin> set (take n s) \<and> ?k (drop n s) = Some g \<and>
     (\<forall>n'. n < n' \<and> n' \<le> length s \<and> newline \<notin> set (take n' s) \<longrightarrow> ?k (drop n' s) = None))
     \<longleftrightarrow> greedy_host D s g"
  proof
    assume "\<exists>n\<le>length s. newline \<notin> set (take n s) \<and> ?k (drop n s) = Some g \<and>
     (\<forall>n'. n < n' \<and> n' \<le> length s \<and> newline \<notin> set (take n' s) \<longrightarrow> ?k (drop n' s) = None)"
    then obtain n where n: "n \<le> length s" "newline \<notin> set (take n s)" "?k (drop n s) = Some g"
      and nmax: "\<forall>n'. n < n' \<and> n' \<le> length s \<and> newline \<notin> set (take n' s) \<longrightarrow>
          ?k (drop n' s) = None"
      by blast
    from n(3) k[OF n(1)] have c: "n + length D < length s \<and>
        fits D (take (length D) (drop n s)) \<and> sep (s ! (n + length D))"
      and g: "g = take (n + length D) s"
      by (auto split: if_splits)
    from c n(2) have cand: "candidate D s n" by (simp add: candidate_def)
    have "n' \<le> n" if c': "candidate D s n'" for n'
    proof (rule ccontr)
      assume "\<not> n' \<le> n"
      with c' have "n < n' \<and> n' \<le> length s \<and> newline \<notin> set (take n' s)"
        by (simp add: candidate_def)
      with nmax have "?k (drop n' s) = None" by blast
      moreover from c' have "n' \<le> length s" by (simp add: candidate_def)
      ultimately show False using c' k[of n'] by (simp add: candidate_def)
    qed
    with cand g show "greedy_host D s g" unfolding greedy_host_def by blast
  next
    assume "greedy_host D s g"
    then obtain n where cand: "candidate D s n" and nmax: "\<forall>n'. candidate D s n' \<longrightarrow> n' \<le> n"
      and g: "g = take (n + length D) s"
      unfolding greedy_host_def by blast
    from cand have n: "n \<le> length s" "newline \<notin> set (take n s)" by (simp_all add: candidate_def)
    from cand k[OF n(1)] g have kn: "?k (drop n s) = Some g" by (simp add: candidate_def)
    have "?k (drop n' s) = None"
      if "n < n' \<and> n' \<le> length s \<and> newline \<notin> set (take n' s)" for n'
    proof (rule ccontr)
      assume "?k (drop n' s) \<noteq> None"
      with that k[of n'] have "candidate D s n'" by (auto simp: candidate_def split: if_splits)
      with nmax have "n' \<le> n" by blast
      with that show False by simp
    qed
    with n kn show "\<exists>n\<le>length s. newline \<notin> set (take n s) \<and> ?k (drop n s) = Some g \<and>
     (\<forall>n'. n < n' \<and> n' \<le> length s \<and> newline \<notin> set (take n' s) \<longrightarrow> ?k (drop n' s) = None)"
      by blast
  qed
  then show ?thesis unfolding subdomain_group_def by (simp only: dot_star_Some)
qed

lemma take3_length: "take 3 y = ''://'' \<Longrightarrow> 3 \<le> length y"
proof -
  assume "take 3 y = ''://''"
  then have "length (take 3 y) = length ''://''" by simp
  then show ?thesis by simp
qed

lemma match_scheme_sep:
  "match_lit ''://'' y = (if take 3 y = ''://'' then Some (drop 3 y) else None)"
proof -
  have l: "length ''://'' = 3" by simp
  from match_lit_eq[of "''://''" y] have
    "match_lit ''://'' y =
       (if 3 \<le> length y \<and> take 3 y = ''://'' then Some (drop 3 y) else None)"
    unfolding l .
  with take3_length[of y] show ?thesis by (cases "take 3 y = ''://''") simp_all
qed

lemma drop_scheme: "drop (Suc m + 3) (c # cs) = drop 3 (drop m cs)"
proof -
  have "drop (Suc m + 3) (c # cs) = drop (Suc (m + 3)) (c # cs)" by (simp only: add_Suc)
  also have "\<dots> = drop (m + 3) cs" by (simp only: drop_Suc_Cons)
  also have "\<dots> = drop (3 + m) cs" by (simp only: add.commute)
  also have "\<dots> = drop 3 (drop m cs)" by (simp only: drop_drop)
  finally show ?thesis .
qed

lemma scheme_cont_eq:
  assumes "domain_atoms D = Some A"
  shows "(case match_lit ''://'' y of None \<Rightarrow> None | Some s2 \<Rightarrow> subdomain_group A s2) = None
         \<longleftrightarrow> \<not> (take 3 y = ''://'' \<and> (\<exists>n. candidate D (drop 3 y) n))"
    and "(case match_lit ''://'' y of None \<Rightarrow> None | Some s2 \<Rightarrow> subdomain_group A s2) = Some g
         \<longleftrightarrow> take 3 y = ''://'' \<and> greedy_host D (drop 3 y) g"
  unfolding match_scheme_sep
  by (simp_all add: subdomain_group_None[OF assms] subdomain_group_Some[OF assms])

lemma greedy_host_candidate: "greedy_host D s g \<Longrightarrow> \<exists>n. candidate D s n"
  unfolding greedy_host_def by blast

lemma scheme_end_Cons:
  "scheme_end D (c # cs) q \<longleftrightarrow>
   (\<exists>m. q = Suc m \<and> m \<le> length cs \<and> c \<noteq> newline \<and> newline \<notin> set (take m cs) \<and>
        take 3 (drop m cs) = ''://'' \<and> (\<exists>n. candidate D (drop 3 (drop m cs)) n))"
proof (cases q)
  case 0
  then show ?thesis by (simp add: scheme_end_def)
next
  case (Suc m)
  have le: "take 3 (drop m cs) = ''://'' \<Longrightarrow> m \<le> length cs"
    by (cases "m \<le> length cs") auto
  have "scheme_end D (c # cs) (Suc m) \<longleftrightarrow>
      newline \<notin> set (take (Suc m) (c # cs)) \<and> take 3 (drop (Suc m) (c # cs)) = ''://'' \<and>
      (\<exists>n. candidate D (drop (Suc m + 3) (c # cs)) n)"
    unfolding scheme_end_def by (simp only: zero_less_Suc simp_thms)
  also have "\<dots> \<longleftrightarrow> c \<noteq> newline \<and> newline \<notin> set (take m cs) \<and>
      take 3 (drop m cs) = ''://'' \<and> (\<exists>n. candidate D (drop 3 (drop m cs)) n)"
    unfolding drop_scheme by auto
  finally show ?thesis using Suc le by auto
qed

lemma dot_plus_None:
  assumes "domain_atoms D = Some A"
  shows "dot_plus (\<lambda>s1. case match_lit ''://'' s1 of None \<Rightarrow> None
                        | Some s2 \<Rightarrow> subdomain_group A s2) t = None
         \<longleftrightarrow> (\<forall>q. \<not> scheme_end D t q)"
proof (cases t)
  case Nil
  then show ?thesis by (simp add: scheme_end_def)
next
  case (Cons c cs)
  let ?k = "\<lambda>s1. case match_lit ''://'' s1 of None \<Rightarrow> None | Some s2 \<Rightarrow> subdomain_group A s2"
  show ?thesis
  proof (cases "c = newline")
    case True
    with Cons show ?thesis by (simp add: scheme_end_Cons)
  next
    case False
    have "dot_star ?k cs = None \<longleftrightarrow> (\<forall>q. \<not> scheme_end D (c # cs) q)"
      unfolding dot_star_None scheme_end_Cons scheme_cont_eq(1)[OF assms]
      using False by blast
    with Cons False show ?thesis by simp
  qed
qed

lemma dot_plus_Some:
  assumes "domain_atoms D = Some A"
  shows "dot_plus (\<lambda>s1. case match_lit ''://'' s1 of None \<Rightarrow> None
                        | Some s2 \<Rightarrow> subdomain_group A s2) t = Some g
         \<longleftrightarrow> (\<exists>q. scheme_end D t q \<and> (\<forall>q'. scheme_end D t q' \<longrightarrow> q' \<le> q) \<and>
                  greedy_host D (drop (q + 3) t) g)"
proof (cases t)
  case Nil
  then show ?thesis by (simp add: scheme_end_def)
next
  case (Cons c cs)
  let ?k = "\<lambda>s1. case match_lit ''://'' s1 of None \<Rightarrow> None | Some s2 \<Rightarrow> subdomain_group A s2"
  show ?thesis
  proof (cases "c = newline")
    case True
    with Cons show ?thesis by (simp add: scheme_end_Cons)
  next
    case False
    have d: "drop (Suc m + 3) (c # cs) = drop 3 (drop m cs)" for m by (rule drop_scheme)
    have "dot_star ?k cs = Some g \<longleftrightarrow>
        (\<exists>q. scheme_end D (c # cs) q \<and> (\<forall>q'. scheme_end D (c # cs) q' \<longrightarrow> q' \<le> q) \<and>
                  greedy_host D (drop (q + 3) (c # cs)) g)"
    proof
      assume "dot_star ?k cs = Some g"
      then obtain m where m: "m \<le> length cs" "newline \<notin> set (take m cs)" "?k (drop m cs) = Some g"
        and mmax: "\<forall>n'. m < n' \<and> n' \<le> length cs \<and> newline \<notin> set (take n' cs) \<longrightarrow>
            ?k (drop n' cs) = None"
        unfolding dot_star_Some by blast
      from m(3) have t3: "take 3 (drop m cs) = ''://''" and gh: "greedy_host D (drop 3 (drop m cs)) g"
        by (simp_all add: scheme_cont_eq(2)[OF assms])
      from t3 gh m False have se: "scheme_end D (c # cs) (Suc m)"
        unfolding scheme_end_Cons by (blast dest: greedy_host_candidate)
      have "q' \<le> Suc m" if "scheme_end D (c # cs) q'" for q'
      proof (rule ccontr)
        assume n: "\<not> q' \<le> Suc m"
        from that obtain m' where m': "q' = Suc m'" "m' \<le> length cs" "newline \<notin> set (take m' cs)"
          "take 3 (drop m' cs) = ''://''" "\<exists>n. candidate D (drop 3 (drop m' cs)) n"
          unfolding scheme_end_Cons by blast
        with n mmax have "?k (drop m' cs) = None" by auto
        with m'(4,5) show False by (simp add: scheme_cont_eq(1)[OF assms])
      qed
      with se gh d[of m] show "\<exists>q. scheme_end D (c # cs) q \<and>
          (\<forall>q'. scheme_end D (c # cs) q' \<longrightarrow> q' \<le> q) \<and>
          greedy_host D (drop (q + 3) (c # cs)) g"
        by auto
    next
      assume "\<exists>q. scheme_end D (c # cs) q \<and> (\<forall>q'. scheme_end D (c # cs) q' \<longrightarrow> q' \<le> q) \<and>
                  greedy_host D (drop (q + 3) (c # cs)) g"
      then obtain q where se: "scheme_end D (c # cs) q"
        and qmax: "\<forall>q'. scheme_end D (c # cs) q' \<longrightarrow> q' \<le> q"
        and gh: "greedy_host D (drop (q + 3) (c # cs)) g"
        by blast
      from se obtain m where m: "q = Suc m" "m \<le> length cs" "newline \<notin> set (take m cs)"
          "take 3 (drop m cs) = ''://''"
        unfolding scheme_end_Cons by blast
      from gh m(1) d[of m] have gh': "greedy_host D (drop 3 (drop m cs)) g" by simp
      with m(4) have km: "?k (drop m cs) = Some g" by (simp add: scheme_cont_eq(2)[OF assms])
      have "?k (drop n' cs) = None"
        if "m < n' \<and> n' \<le> length cs \<and> newline \<notin> set (take n' cs)" for n'
      proof (rule ccontr)
        assume "?k (drop n' cs) \<noteq> None"
        then have "take 3 (drop n' cs) = ''://'' \<and> (\<exists>n. candidate D (drop 3 (drop n' cs)) n)"
          by (simp add: scheme_cont_eq(1)[OF assms])
        with that False have "scheme_end D (c # cs) (Suc n')"
          unfolding scheme_end_Cons by blast
        with qmax have "Suc n' \<le> q" by blast
        with m(1) that show False by simp
      qed
      with m km show "dot_star ?k cs = Some g" unfolding dot_star_Some by blast
    qed
    with Cons False show ?thesis by simp
  qed
qed

lemma regexp_match_exact:
  assumes "domain_atoms D = Some A"
  shows "regexp_match A t = Some g \<longleftrightarrow> (\<exists>s. greedy_rest D t s \<and> greedy_host D s g)"
proof (cases "dot_plus (\<lambda>s1. case match_lit ''://'' s1 of None \<Rightarrow> None
                        | Some s2 \<Rightarrow> subdomain_group A s2) t")
  case None
  then have no: "\<forall>q. \<not> scheme_end D t q" by (simp add: dot_plus_None[OF assms])
  then have "greedy_rest D t s \<longleftrightarrow> s = t" for s
    unfolding greedy_rest_def by blast
  moreover from None have "regexp_match A t = subdomain_group A t"
    by (simp add: regexp_match_def)
  ultimately show ?thesis by (simp add: subdomain_group_Some[OF assms])
next
  case (Some g')
  then obtain q where q: "scheme_end D t q" "\<forall>q'. scheme_end D t q' \<longrightarrow> q' \<le> q"
    "greedy_host D (drop (q + 3) t) g'"
    unfolding dot_plus_Some[OF assms] by blast
  from Some have r: "regexp_match A t = Some g'" by (simp add: regexp_match_def)
  have "greedy_rest D t s \<longleftrightarrow> s = drop (q + 3) t" for s
  proof
    assume "greedy_rest D t s"
    with q(1) obtain q2 where q2: "scheme_end D t q2" "\<forall>q'. scheme_end D t q' \<longrightarrow> q' \<le> q2"
      "s = drop (q2 + 3) t"
      unfolding greedy_rest_def by blast
    from q(1) q2(2) have "q \<le> q2" by blast
    moreover from q2(1) q(2) have "q2 \<le> q" by blast
    ultimately show "s = drop (q + 3) t" using q2(3) by simp
  next
    assume "s = drop (q + 3) t"
    with q show "greedy_rest D t s" unfolding greedy_rest_def by blast
  qed
  then have "(\<exists>s. greedy_rest D t s \<and> greedy_host D s g) \<longleftrightarrow> greedy_host D (drop (q + 3) t) g"
    by simp
  also have "\<dots> \<longleftrightarrow> g = g'"
  proof
    assume "greedy_host D (drop (q + 3) t) g"
    then obtain n where n: "candidate D (drop (q + 3) t) n"
      "\<forall>n'. candidate D (drop (q + 3) t) n' \<longrightarrow> n' \<le> n" "g = take (n + length D) (drop (q + 3) t)"
      unfolding greedy_host_def by blast
    from q(3) obtain n2 where n2: "candidate D (drop (q + 3) t) n2"
      "\<forall>n'. candidate D (drop (q + 3) t) n' \<longrightarrow> n' \<le> n2" "g' = take (n2 + length D) (drop (q + 3) t)"
      unfolding greedy_host_def by blast
    from n(1) n2(2) have "n \<le> n2" by blast
    moreover from n2(1) n(2) have "n2 \<le> n" by blast
    ultimately show "g = g'" using n(3) n2(3) by simp
  next
    assume "g = g'"
    with q(3) show "greedy_host D (drop (q + 3) t) g" by simp
  qed
  finally show ?thesis using r by auto
qed

subsection \<open>The query string\<close>

lemma join_terms:
  "xs \<noteq> [] \<Longrightarrow> ''+'' @ join ''+'' (map (\<lambda>s. p @ s) xs) = concat (map (\<lambda>s. ''+'' @ p @ s) xs)"
  by (induction xs rule: induct_list012) auto

lemma url_terms:
  "url self excl =
   base_url self @ concat (map (\<lambda>s. ''+'' @ exclude_param (meta self) @ s) (excluded_subdomains self excl))"
  using join_terms[of "excluded_subdomains self excl" "exclude_param (meta self)"]
  by (auto simp: url_def Let_def)

subsection \<open>The cleaner on concrete texts\<close>

lemmas clean_eval =
  clean_def re_compile_def regexp_match_def subdomain_group_def after_group_def sep_def
  metachar_def newline_def

text \<open>
  C7. For the domain \<^verbatim>\<open>example.com\<close>, \<^verbatim>\<open>clean\<close> applied to the single raw text
  \<^verbatim>\<open>http://sub.example.com/page?x=1\<close> returns exactly the list with the one entry
  \<^verbatim>\<open>sub.example.com\<close>, and applied to the single raw text \<^verbatim>\<open>no-match-here\<close>, which
  has neither \<^verbatim>\<open>/\<close> nor \<^verbatim>\<open>?\<close>, it returns the empty list.
\<close>

theorem clean_example_round_trip:
  "clean re ''example.com'' [''http://sub.example.com/page?x=1''] = Inr [''sub.example.com'']
   \<and> clean re ''example.com'' [''no-match-here''] = Inr []"
  by (simp add: clean_eval)

text \<open>
  C10. The domain is pasted into the pattern unescaped, so its full stop is the
  wildcard: for the domain \<^verbatim>\<open>a.com\<close> the pattern's atoms are \<^verbatim>\<open>a\<close>, any character,
  \<^verbatim>\<open>c\<close>, \<^verbatim>\<open>o\<close>, \<^verbatim>\<open>m\<close>, and the raw text \<^verbatim>\<open>xaXcom/\<close>, whose host \<^verbatim>\<open>xaXcom\<close> does
  not end with \<^verbatim>\<open>a.com\<close>, is accepted and returned by \<^verbatim>\<open>clean\<close>.
\<close>

theorem clean_dot_is_wildcard:
  "domain_atoms ''a.com'' = Some [Lit CHR ''a'', Dot, Lit CHR ''c'', Lit CHR ''o'', Lit CHR ''m'']
   \<and> clean re ''a.com'' [''xaXcom/''] = Inr [''xaXcom'']
   \<and> spec_host ''xaXcom/'' = ''xaXcom''
   \<and> \<not> suffix ''a.com'' ''xaXcom''"
  by (simp add: clean_eval spec_host_def spec_strip_scheme_def suffix_to_prefix)

subsection \<open>The query builder\<close>

text \<open>
  C5. For every configuration, domain and exclusion list, \<^verbatim>\<open>url\<close> returns exactly
  \<^verbatim>\<open>search_url + "?" + query_param + "=" + include_param + domain\<close>, followed, for each
  element of the deduplicated exclusion list (first-seen order), by the term
  \<^verbatim>\<open>"+" + exclude_param + subdomain\<close>, in the list's order; with an empty exclusion list
  the result is the base URL alone. The exclusion list is what line 143 assembles: the
  argument followed by the exclusions the instance was created with.
\<close>

theorem url_format:
  "url self excl =
     search_url (meta self) @ ''?'' @ query_param (meta self) @ ''='' @
     include_param (meta self) @ domain self @
     concat (map (\<lambda>excluded. ''+'' @ exclude_param (meta self) @ excluded)
              (without_duplicates (or_empty excl @ or_empty (exclude_subdomains self))))
   \<and> distinct (without_duplicates (or_empty excl @ or_empty (exclude_subdomains self)))
   \<and> set (without_duplicates (or_empty excl @ or_empty (exclude_subdomains self))) =
       set (or_empty excl) \<union> set (or_empty (exclude_subdomains self))
   \<and> (or_empty excl @ or_empty (exclude_subdomains self) = [] \<longrightarrow>
        url self excl =
          search_url (meta self) @ ''?'' @ query_param (meta self) @ ''='' @
          include_param (meta self) @ domain self)"
  by (simp add: url_terms base_url_def excluded_subdomains_def)

theorem url_format_witness:
  "url \<lparr>meta = google, domain = ''site.io'', exclude_subdomains = None\<rparr> (Some []) =
     ''https://www.google.com/search?q=site:site.io''
   \<and> url \<lparr>meta = google, domain = ''site.io'', exclude_subdomains = Some [''old.site.io'']\<rparr>
        (Some [''a.site.io'', ''old.site.io'', ''a.site.io'']) =
     ''https://www.google.com/search?q=site:site.io+-site:a.site.io+-site:old.site.io''"
  using url_format[of "\<lparr>meta = google, domain = ''site.io'', exclude_subdomains = None\<rparr>" "Some []"]
    url_format[of "\<lparr>meta = google, domain = ''site.io'', exclude_subdomains = Some [''old.site.io'']\<rparr>"
       "Some [''a.site.io'', ''old.site.io'', ''a.site.io'']"]
  by (simp add: or_empty_def google_def)

subsection \<open>The loop\<close>

lemmas run_eval =
  iteration_def initial_def url_def base_url_def excluded_subdomains_def or_empty_def
  Let_def google_def example_plugin_def

text \<open>
  C4, as the specification states it, at the domain \<^verbatim>\<open>(\<close>: the pattern built from it
  does not compile, and with a collaborator that returns no elements \<^verbatim>\<open>run\<close> builds one
  URL, requests it and then raises \<^verbatim>\<open>re.error\<close> instead of returning.
\<close>

theorem unclosed_domain_raises:
  "re_compile no_re (domain paren_domain) = Inl Re_error
   \<and> run no_re no_fragments paren_domain =
       Some (Raised Re_error [''https://www.google.com/search?q=site:(''])"
proof -
  have c: "re_compile no_re (domain paren_domain) = Inl Re_error"
    by (simp add: re_compile_def paren_domain_def unclosed_def metachar_def)
  then have "iteration no_re no_fragments paren_domain initial =
      Raise Re_error (initial\<lparr>index := 1,
        requested := [''https://www.google.com/search?q=site:('']\<rparr>)"
    by (simp add: iteration_def initial_def url_def base_url_def excluded_subdomains_def
        or_empty_def Let_def no_fragments_def clean_def)
      (simp add: paren_domain_def google_def)
  then have "ended (iterations no_re no_fragments paren_domain (Suc 0) initial) =
      Some (Raised Re_error [''https://www.google.com/search?q=site:(''])"
    by (simp add: initial_def)
  then have "run no_re no_fragments paren_domain =
      Some (Raised Re_error [''https://www.google.com/search?q=site:(''])"
    unfolding run_def by (rule while_True_ended)
  with c show ?thesis by simp
qed

text \<open>
  C4, amended. For every preset exclusion list and every domain whose pattern
  \<^verbatim>\<open>re.compile\<close> accepts (every domain without a metacharacter other than the full stop
  is one), with a collaborator that always returns no fragments \<^verbatim>\<open>run\<close> returns after
  exactly one pass: one URL is built and requested, the loop is left through the
  \<^verbatim>\<open>break\<close> for an empty cleaned list, and the returned list is empty. For a domain
  whose pattern \<^verbatim>\<open>re.compile\<close> rejects, \<^verbatim>\<open>run\<close> builds and requests one URL and then
  raises the error of \<^verbatim>\<open>re.compile\<close>.
\<close>

theorem no_fragments_one_iteration:
  "(re_compile re (domain self) = Inr regexp \<longrightarrow>
      run re (\<lambda>i u sel. Inr []) self =
        Some (Returned No_subdomains [url self (Some [])] []))
   \<and> (re_compile re (domain self) = Inl e \<longrightarrow>
      run re (\<lambda>i u sel. Inr []) self = Some (Raised e [url self (Some [])]))
   \<and> (domain_atoms (domain self) \<noteq> None \<longrightarrow>
      (\<exists>regexp. re_compile re (domain self) = Inr regexp))"
proof (intro conjI impI)
  assume "re_compile re (domain self) = Inr regexp"
  then have "iteration re (\<lambda>i u sel. Inr []) self initial =
      Break No_subdomains (initial\<lparr>index := 1, requested := [url self (Some [])]\<rparr>)"
    by (simp add: iteration_def initial_def clean_def Let_def)
  then have "ended (iterations re (\<lambda>i u sel. Inr []) self (Suc 0) initial) =
      Some (Returned No_subdomains [url self (Some [])] [])"
    by (simp add: initial_def)
  then show "run re (\<lambda>i u sel. Inr []) self =
      Some (Returned No_subdomains [url self (Some [])] [])"
    unfolding run_def by (rule while_True_ended)
next
  assume "re_compile re (domain self) = Inl e"
  then have "iteration re (\<lambda>i u sel. Inr []) self initial =
      Raise e (initial\<lparr>index := 1, requested := [url self (Some [])]\<rparr>)"
    by (simp add: iteration_def initial_def clean_def Let_def)
  then have "ended (iterations re (\<lambda>i u sel. Inr []) self (Suc 0) initial) =
      Some (Raised e [url self (Some [])])"
    by (simp add: initial_def)
  then show "run re (\<lambda>i u sel. Inr []) self = Some (Raised e [url self (Some [])])"
    unfolding run_def by (rule while_True_ended)
next
  assume "domain_atoms (domain self) \<noteq> None"
  then show "\<exists>regexp. re_compile re (domain self) = Inr regexp"
    by (auto simp: re_compile_def)
qed

theorem no_fragments_one_iteration_witness:
  "domain_atoms (domain site_io) \<noteq> None
   \<and> run no_re (\<lambda>i u sel. Inr []) site_io =
       Some (Returned No_subdomains
          [''https://www.google.com/search?q=site:site.io+-site:old.site.io''] [])
   \<and> re_compile no_re (domain paren_domain) = Inl Re_error
   \<and> run no_re (\<lambda>i u sel. Inr []) paren_domain =
       Some (Raised Re_error [''https://www.google.com/search?q=site:(''])"
proof -
  have a: "domain_atoms (domain site_io) \<noteq> None"
    by (simp add: site_io_def metachar_def)
  from no_fragments_one_iteration[of no_re site_io, THEN conjunct2, THEN conjunct2] a
  obtain regexp where c: "re_compile no_re (domain site_io) = Inr regexp" by blast
  from no_fragments_one_iteration[of no_re site_io regexp, THEN conjunct1] c
  have "run no_re (\<lambda>i u sel. Inr []) site_io =
      Some (Returned No_subdomains [url site_io (Some [])] [])" by blast
  moreover have "url site_io (Some []) =
      ''https://www.google.com/search?q=site:site.io+-site:old.site.io''"
    by (simp add: url_def base_url_def excluded_subdomains_def or_empty_def site_io_def google_def)
  ultimately have r1: "run no_re (\<lambda>i u sel. Inr []) site_io =
       Some (Returned No_subdomains
          [''https://www.google.com/search?q=site:site.io+-site:old.site.io''] [])" by simp
  have b: "re_compile no_re (domain paren_domain) = Inl Re_error"
    by (simp add: re_compile_def paren_domain_def unclosed_def metachar_def)
  from no_fragments_one_iteration[of no_re paren_domain _ Re_error, THEN conjunct2, THEN conjunct1] b
  have "run no_re (\<lambda>i u sel. Inr []) paren_domain =
      Some (Raised Re_error [url paren_domain (Some [])])" by blast
  moreover have "url paren_domain (Some []) = ''https://www.google.com/search?q=site:(''"
    by (simp add: url_def base_url_def excluded_subdomains_def or_empty_def paren_domain_def
        google_def)
  ultimately have r2: "run no_re (\<lambda>i u sel. Inr []) paren_domain =
       Some (Raised Re_error [''https://www.google.com/search?q=site:(''])" by simp
  from a r1 b r2 show ?thesis by blast
qed




text \<open>
  C3. At every iteration boundary (after any number of passes that reached the end of the
  body) and in the list that \<^verbatim>\<open>run\<close> returns, the accumulated list has no duplicates,
  does not contain the bare target domain, and lists the cleaned results of all passes so
  far in the order in which they were first seen.
\<close>

theorem collected_invariant:
  "(iterations re fetch self n initial = Continue s \<longrightarrow>
      distinct (collected_subdomains s) \<and> domain self \<notin> set (collected_subdomains s) \<and>
      collected_subdomains s =
        without_duplicates (filter (\<lambda>x. x \<noteq> domain self) (harvest re fetch self n initial)))
   \<and> (run re fetch self = Some (Returned r reqs res) \<longrightarrow>
      distinct res \<and> domain self \<notin> set res \<and>
      (\<exists>k. res = without_duplicates (filter (\<lambda>x. x \<noteq> domain self) (harvest re fetch self k initial))))"
proof (intro conjI impI)
  assume c: "iterations re fetch self n initial = Continue s"
  from iterations_collected[OF c]
  show "distinct (collected_subdomains s)" "domain self \<notin> set (collected_subdomains s)"
    "collected_subdomains s =
        without_duplicates (filter (\<lambda>x. x \<noteq> domain self) (harvest re fetch self n initial))"
    by (simp_all add: initial_def)
next
  assume "run re fetch self = Some (Returned r reqs res)"
  from run_returns[OF this] obtain k s1 where
    k: "iterations re fetch self k initial = Continue s1" and res: "res = collected_subdomains s1"
    by blast
  from iterations_collected[OF k]
  have *: "distinct res" "domain self \<notin> set res"
    "res = without_duplicates (filter (\<lambda>x. x \<noteq> domain self) (harvest re fetch self k initial))"
    using res by (simp_all add: initial_def)
  then show "distinct res" "domain self \<notin> set res" by simp_all
  from *(3) show "\<exists>k. res = without_duplicates (filter (\<lambda>x. x \<noteq> domain self) (harvest re fetch self k initial))"
    by blast
qed

theorem collected_invariant_witness:
  "iterations no_re two_pages example_plugin 2 initial =
     Continue \<lparr>index = 2, collected_subdomains = [''sub.example.com'', ''b.example.com''],
       requested = [''https://www.google.com/search?q=site:example.com'',
          ''https://www.google.com/search?q=site:example.com+-site:sub.example.com'']\<rparr>
   \<and> run no_re two_pages example_plugin =
       Some (Returned No_subdomains
         [''https://www.google.com/search?q=site:example.com'',
          ''https://www.google.com/search?q=site:example.com+-site:sub.example.com'',
          ''https://www.google.com/search?q=site:example.com+-site:sub.example.com+-site:b.example.com'']
         [''sub.example.com'', ''b.example.com''])
   \<and> [''sub.example.com'', ''b.example.com''] =
       without_duplicates (filter (\<lambda>x. x \<noteq> domain example_plugin)
         (harvest no_re two_pages example_plugin 2 initial))
   \<and> distinct [''sub.example.com'', ''b.example.com'']
   \<and> domain example_plugin \<notin> set [''sub.example.com'', ''b.example.com'']"
proof -
  let ?s2 = "\<lparr>index = 2, collected_subdomains = [''sub.example.com'', ''b.example.com''],
       requested = [''https://www.google.com/search?q=site:example.com'',
          ''https://www.google.com/search?q=site:example.com+-site:sub.example.com'']\<rparr>"
  let ?reqs = "[''https://www.google.com/search?q=site:example.com'',
          ''https://www.google.com/search?q=site:example.com+-site:sub.example.com'',
          ''https://www.google.com/search?q=site:example.com+-site:sub.example.com+-site:b.example.com'']"
  have two: "iterations no_re two_pages example_plugin 2 initial = Continue ?s2"
    by (simp add: run_eval two_pages_def clean_eval numeral_2_eq_2)
  have "iteration no_re two_pages example_plugin ?s2 =
      Break No_subdomains (?s2\<lparr>index := 3, requested := ?reqs\<rparr>)"
    by (simp add: run_eval two_pages_def clean_eval)
  with iterations_Suc_end[OF two]
  have "ended (iterations no_re two_pages example_plugin (Suc 2) initial) =
      Some (Returned No_subdomains ?reqs [''sub.example.com'', ''b.example.com''])"
    by simp
  then have r: "run no_re two_pages example_plugin =
      Some (Returned No_subdomains ?reqs [''sub.example.com'', ''b.example.com''])"
    unfolding run_def by (rule while_True_ended)
  from collected_invariant[of no_re two_pages example_plugin 2 ?s2 No_subdomains ?reqs
      "[''sub.example.com'', ''b.example.com'']"] two r
  show ?thesis by simp
qed

text \<open>
  C6. For a run with the target domain \<^verbatim>\<open>site.io\<close> and the preset exclusion
  \<^verbatim>\<open>old.site.io\<close>, the first URL built (nothing collected yet) has exactly one exclude
  term, the one for \<^verbatim>\<open>old.site.io\<close>, and none for \<^verbatim>\<open>site.io\<close> itself; it is the URL
  of the first request of every run, however the first pass and the run end.
\<close>

theorem first_url_preset_only:
  assumes "domain self = ''site.io''" and "exclude_subdomains self = Some [''old.site.io'']"
  shows "excluded_subdomains self (Some (collected_subdomains initial)) = [''old.site.io'']
     \<and> ''site.io'' \<notin> set (excluded_subdomains self (Some (collected_subdomains initial)))
     \<and> url self (Some (collected_subdomains initial)) =
         search_url (meta self) @ ''?'' @ query_param (meta self) @ ''='' @
         include_param (meta self) @ ''site.io'' @
         ''+'' @ exclude_param (meta self) @ ''old.site.io''
     \<and> (\<exists>s'. requested s' = [url self (Some (collected_subdomains initial))] \<and>
              (iteration re fetch self initial = Continue s' \<or>
               (\<exists>r. iteration re fetch self initial = Break r s') \<or>
               (\<exists>e. iteration re fetch self initial = Raise e s')))
     \<and> (\<forall>out. run re fetch self = Some out \<longrightarrow>
           hd (requests out) = url self (Some (collected_subdomains initial)))"
proof -
  have ex: "excluded_subdomains self (Some (collected_subdomains initial)) = [''old.site.io'']"
    using assms by (simp add: excluded_subdomains_def or_empty_def initial_def)
  have u: "url self (Some (collected_subdomains initial)) =
         search_url (meta self) @ ''?'' @ query_param (meta self) @ ''='' @
         include_param (meta self) @ ''site.io'' @
         ''+'' @ exclude_param (meta self) @ ''old.site.io''"
    using ex assms by (simp add: url_def base_url_def Let_def)
  from iteration_requested[of initial self re fetch]
  have first: "\<exists>s'. requested s' = [url self (Some (collected_subdomains initial))] \<and>
              (iteration re fetch self initial = Continue s' \<or>
               (\<exists>r. iteration re fetch self initial = Break r s') \<or>
               (\<exists>e. iteration re fetch self initial = Raise e s'))"
    by (simp add: initial_def)
  have "\<forall>out. run re fetch self = Some out \<longrightarrow>
           hd (requests out) = url self (Some (collected_subdomains initial))"
    by (auto dest!: run_first_request simp: initial_def)
  with ex u first show ?thesis by simp
qed

theorem first_url_preset_only_witness:
  "run no_re offline site_io =
     Some (Returned Connection_error
       [''https://www.google.com/search?q=site:site.io+-site:old.site.io''] [])
   \<and> url site_io (Some (collected_subdomains initial)) =
       ''https://www.google.com/search?q=site:site.io+-site:old.site.io''"
proof -
  have a1: "domain site_io = ''site.io''" by (simp add: site_io_def)
  have a2: "exclude_subdomains site_io = Some [''old.site.io'']" by (simp add: site_io_def)
  note t = first_url_preset_only[OF a1 a2, of no_re offline]
  from t[THEN conjunct2, THEN conjunct2, THEN conjunct1]
  have u: "url site_io (Some (collected_subdomains initial)) =
       ''https://www.google.com/search?q=site:site.io+-site:old.site.io''"
    by (simp add: site_io_def google_def)
  have "iteration no_re offline site_io initial =
      Break Connection_error (initial\<lparr>index := 1,
         requested := [url site_io (Some (collected_subdomains initial))]\<rparr>)"
    by (simp add: iteration_def offline_def initial_def Let_def)
  then have "ended (iterations no_re offline site_io (Suc 0) initial) = Some (Returned Connection_error
       [url site_io (Some (collected_subdomains initial))] [])"
    by (simp add: initial_def)
  then have "run no_re offline site_io = Some (Returned Connection_error
       [url site_io (Some (collected_subdomains initial))] [])"
    unfolding run_def by (rule while_True_ended)
  with u show ?thesis by simp
qed

subsection \<open>The target domain is not validated\<close>

text \<open>
  C8, as the specification states it, at the empty domain: the constructor accepts it, and
  with a collaborator that returns no elements \<^verbatim>\<open>run\<close> builds a URL, requests it and
  returns the empty list; nothing is rejected before the loop.
\<close>

theorem empty_domain_not_rejected:
  "init google [] [] = Inr empty_domain
   \<and> run no_re no_fragments empty_domain =
       Some (Returned No_subdomains [''https://www.google.com/search?q=site:''] [])"
proof -
  have "iteration no_re no_fragments empty_domain initial =
      Break No_subdomains (initial\<lparr>index := 1,
        requested := [''https://www.google.com/search?q=site:'']\<rparr>)"
    by (simp add: run_eval empty_domain_def no_fragments_def clean_def re_compile_def)
  then have "ended (iterations no_re no_fragments empty_domain (Suc 0) initial) =
      Some (Returned No_subdomains [''https://www.google.com/search?q=site:''] [])"
    by (simp add: initial_def)
  then have "run no_re no_fragments empty_domain =
      Some (Returned No_subdomains [''https://www.google.com/search?q=site:''] [])"
    unfolding run_def by (rule while_True_ended)
  then show ?thesis by (simp add: init_def empty_domain_def)
qed

text \<open>
  C8, amended. Neither the constructor nor \<^verbatim>\<open>run\<close> validates the target domain, and
  there is no \<^verbatim>\<open>InvalidInputError\<close>. The constructor stores every domain as given
  whenever the only keyword argument is \<^verbatim>\<open>exclude_subdomains\<close>, and what it rejects,
  with \<^verbatim>\<open>AttributeError\<close>, is any other keyword argument, whatever the domain. For
  every domain, empty or malformed, the first pass of the loop builds the first URL from
  it and requests it, and every run that ends, by returning or by raising, has made that
  request first.
\<close>

theorem no_domain_validation:
  "((\<forall>kv\<in>set kwargs. fst kv = ''exclude_subdomains'') \<longrightarrow>
      init m d kwargs =
        Inr \<lparr>meta = m, domain = d, exclude_subdomains = map_of kwargs ''exclude_subdomains''\<rparr>)
   \<and> ((\<exists>kv\<in>set kwargs. fst kv \<noteq> ''exclude_subdomains'') \<longrightarrow>
      init m d kwargs =
        Inl (AttributeError
          (''Unknown attributes in plugin initialization ('' @
           join '', '' (map fst (filter (\<lambda>kv. fst kv \<noteq> ''exclude_subdomains'') kwargs)) @
           '')'')))
   \<and> init m d [] = Inr \<lparr>meta = m, domain = d, exclude_subdomains = None\<rparr>
   \<and> init m d [(''exclude_subdomains'', xs)] =
       Inr \<lparr>meta = m, domain = d, exclude_subdomains = Some xs\<rparr>
   \<and> (\<exists>s'. requested s' = [url self (Some [])] \<and>
            (iteration re fetch self initial = Continue s' \<or>
             (\<exists>r. iteration re fetch self initial = Break r s') \<or>
             (\<exists>e. iteration re fetch self initial = Raise e s')))
   \<and> (\<forall>out. run re fetch self = Some out \<longrightarrow>
         (\<exists>rest. requests out = url self (Some []) # rest))"
proof -
  have i1: "(\<forall>kv\<in>set kwargs. fst kv = ''exclude_subdomains'') \<longrightarrow>
      init m d kwargs =
        Inr \<lparr>meta = m, domain = d, exclude_subdomains = map_of kwargs ''exclude_subdomains''\<rparr>"
  proof
    assume "\<forall>kv\<in>set kwargs. fst kv = ''exclude_subdomains''"
    then have "filter (\<lambda>kv. fst kv \<noteq> ''exclude_subdomains'') kwargs = []"
      by (simp add: filter_empty_conv)
    then show "init m d kwargs =
        Inr \<lparr>meta = m, domain = d, exclude_subdomains = map_of kwargs ''exclude_subdomains''\<rparr>"
      by (simp add: init_def)
  qed
  have i2: "(\<exists>kv\<in>set kwargs. fst kv \<noteq> ''exclude_subdomains'') \<longrightarrow>
      init m d kwargs =
        Inl (AttributeError
          (''Unknown attributes in plugin initialization ('' @
           join '', '' (map fst (filter (\<lambda>kv. fst kv \<noteq> ''exclude_subdomains'') kwargs)) @
           '')''))"
  proof
    assume "\<exists>kv\<in>set kwargs. fst kv \<noteq> ''exclude_subdomains''"
    then have "filter (\<lambda>kv. fst kv \<noteq> ''exclude_subdomains'') kwargs \<noteq> []"
      by (simp add: filter_empty_conv)
    then show "init m d kwargs =
        Inl (AttributeError
          (''Unknown attributes in plugin initialization ('' @
           join '', '' (map fst (filter (\<lambda>kv. fst kv \<noteq> ''exclude_subdomains'') kwargs)) @
           '')''))"
      by (simp add: init_def Let_def)
  qed
  from iteration_requested[of initial self re fetch]
  have first: "\<exists>s'. requested s' = [url self (Some [])] \<and>
            (iteration re fetch self initial = Continue s' \<or>
             (\<exists>r. iteration re fetch self initial = Break r s') \<or>
             (\<exists>e. iteration re fetch self initial = Raise e s'))"
    by (simp add: initial_def)
  have "\<forall>out. run re fetch self = Some out \<longrightarrow>
         (\<exists>rest. requests out = url self (Some []) # rest)"
    by (blast dest: run_first_request)
  with i1 i2 first show ?thesis by (simp add: init_def)
qed

theorem no_domain_validation_witness:
  "run no_re offline empty_domain =
     Some (Returned Connection_error [''https://www.google.com/search?q=site:''] [])
   \<and> (\<exists>rest. [''https://www.google.com/search?q=site:''] = url empty_domain (Some []) # rest)
   \<and> init google [] [(''page'', [''2''])] =
       Inl (AttributeError ''Unknown attributes in plugin initialization (page)'')
   \<and> init google ''('' [(''exclude_subdomains'', [''old.site.io''])] =
       Inr \<lparr>meta = google, domain = ''('', exclude_subdomains = Some [''old.site.io'']\<rparr>"
proof -
  have "iteration no_re offline empty_domain initial =
      Break Connection_error (initial\<lparr>index := 1,
         requested := [''https://www.google.com/search?q=site:'']\<rparr>)"
    by (simp add: run_eval offline_def empty_domain_def)
  then have "ended (iterations no_re offline empty_domain (Suc 0) initial) = Some (Returned Connection_error
       [''https://www.google.com/search?q=site:''] [])"
    by (simp add: initial_def)
  then have r: "run no_re offline empty_domain = Some (Returned Connection_error
       [''https://www.google.com/search?q=site:''] [])"
    unfolding run_def by (rule while_True_ended)
  note t = no_domain_validation[of "[(''page'', [''2''])]" google "[]" "[]" empty_domain no_re offline]
  from t[THEN conjunct2, THEN conjunct2, THEN conjunct2, THEN conjunct2, THEN conjunct2] r
  have a: "\<exists>rest. [''https://www.google.com/search?q=site:''] = url empty_domain (Some []) # rest"
    by fastforce
  from t[THEN conjunct2, THEN conjunct1]
  have b: "init google [] [(''page'', [''2''])] =
       Inl (AttributeError ''Unknown attributes in plugin initialization (page)'')"
    by simp
  from no_domain_validation[of "[(''exclude_subdomains'', [''old.site.io''])]" google "''(''",
      THEN conjunct1]
  have c: "init google ''('' [(''exclude_subdomains'', [''old.site.io''])] =
       Inr \<lparr>meta = google, domain = ''('', exclude_subdomains = Some [''old.site.io'']\<rparr>"
    by simp
  from r a b c show ?thesis by blast
qed

subsection \<open>The cleaner in general\<close>

text \<open>
  C1, as the specification states it, at two texts without a scheme. For the domain
  \<^verbatim>\<open>example.com\<close> and the text \<^verbatim>\<open>a.example.com/x?u=b.example.com/\<close> the rule of the
  specification accepts with the host \<^verbatim>\<open>a.example.com\<close>, while \<^verbatim>\<open>clean\<close> returns the
  longer \<^verbatim>\<open>a.example.com/x?u=b.example.com\<close>, which contains \<^verbatim>\<open>/\<close> and \<^verbatim>\<open>?\<close>; and the
  text \<^verbatim>\<open>x/example.com/\<close>, whose host \<^verbatim>\<open>x\<close> does not end with the domain, is
  accepted by \<^verbatim>\<open>clean\<close>.
\<close>

theorem clean_not_first_separator:
  "clean no_re ''example.com'' [''a.example.com/x?u=b.example.com/''] =
     Inr [''a.example.com/x?u=b.example.com'']
   \<and> spec_clean ''example.com'' ''a.example.com/x?u=b.example.com/'' = [''a.example.com'']
   \<and> CHR ''/'' \<in> set ''a.example.com/x?u=b.example.com''
   \<and> CHR ''?'' \<in> set ''a.example.com/x?u=b.example.com''
   \<and> clean no_re ''example.com'' [''x/example.com/''] = Inr [''x/example.com'']
   \<and> spec_host ''x/example.com/'' = ''x''
   \<and> spec_clean ''example.com'' ''x/example.com/'' = []"
  by (simp add: clean_eval spec_clean_def spec_accepts_def spec_host_def spec_strip_scheme_def
      suffix_to_prefix)

text \<open>
  C1, amended. For every target domain \<open>D\<close> without a metacharacter other than the full
  stop and every raw text \<open>T\<close>, \<^verbatim>\<open>clean(D, [T])\<close> returns the empty list or one entry,
  and it returns the entry \<open>H\<close> if and only if \<open>H\<close> is non-empty and is the greedy match:
  the scheme part stripped from \<open>T\<close> is the longest non-empty prefix without line feed
  that is followed by \<^verbatim>\<open>://\<close> and after which a match is possible (nothing is stripped
  when there is none), and \<open>H\<close> is the longest prefix of what remains that consists of
  characters without line feed followed by a text that fits \<open>D\<close>, and that is followed by
  \<^verbatim>\<open>/\<close> or \<^verbatim>\<open>?\<close>. So \<open>H\<close> reaches to the last possible \<^verbatim>\<open>/\<close> or \<^verbatim>\<open>?\<close>, not to the
  first. Such an \<open>H\<close> is followed in \<open>T\<close> by \<^verbatim>\<open>/\<close> or \<^verbatim>\<open>?\<close> and starts at the beginning of
  \<open>T\<close> or right after a non-empty text and \<^verbatim>\<open>://\<close>. For a non-empty \<open>D\<close>, \<open>T\<close> is accepted
  if and only if somewhere in \<open>T\<close> a text that fits \<open>D\<close>, preceded by no line feed, is
  followed by \<^verbatim>\<open>/\<close> or \<^verbatim>\<open>?\<close>; in particular every text without line feed that the rule
  of the specification accepts is accepted.
\<close>

theorem clean_single_text:
  assumes "domain_atoms D \<noteq> None"
  shows "(clean re D [T] = Inr [H] \<longleftrightarrow>
            H \<noteq> [] \<and> (\<exists>s. greedy_rest D T s \<and> greedy_host D s H))
       \<and> (clean re D [T] = Inr [] \<or>
          (\<exists>H P X M c R. clean re D [T] = Inr [H] \<and> H \<noteq> [] \<and> T = P @ H @ c # R \<and> sep c \<and>
             (P = [] \<or> (\<exists>Q. Q \<noteq> [] \<and> P = Q @ ''://'')) \<and>
             H = X @ M \<and> newline \<notin> set X \<and> fits D M))
       \<and> (D \<noteq> [] \<longrightarrow>
            (clean re D [T] \<noteq> Inr [] \<longleftrightarrow>
               (\<exists>X M c R. T = X @ M @ c # R \<and> newline \<notin> set X \<and> fits D M \<and> sep c)))
       \<and> (D \<noteq> [] \<and> newline \<notin> set T \<and> spec_accepts D T \<longrightarrow> clean re D [T] \<noteq> Inr [])"
proof -
  from assms obtain A where A: "domain_atoms D = Some A" by auto
  note eq = clean_single_eq[OF A, of re T]
  note fit = domain_atoms_fits[OF A]
  have part0: "clean re D [T] = Inr [H] \<longleftrightarrow>
            H \<noteq> [] \<and> (\<exists>s. greedy_rest D T s \<and> greedy_host D s H)"
  proof -
    have "clean re D [T] = Inr [H] \<longleftrightarrow> H \<noteq> [] \<and> regexp_match A T = Some H"
      unfolding eq by (auto split: option.splits)
    then show ?thesis by (simp only: regexp_match_exact[OF A])
  qed
  have part1: "clean re D [T] = Inr [] \<or>
          (\<exists>H P X M c R. clean re D [T] = Inr [H] \<and> H \<noteq> [] \<and> T = P @ H @ c # R \<and> sep c \<and>
             (P = [] \<or> (\<exists>Q. Q \<noteq> [] \<and> P = Q @ ''://'')) \<and>
             H = X @ M \<and> newline \<notin> set X \<and> fits D M)"
  proof (cases "regexp_match A T")
    case None
    with eq show ?thesis by simp
  next
    case (Some g)
    show ?thesis
    proof (cases "g = []")
      case True
      with Some eq show ?thesis by simp
    next
      case False
      from regexp_match_sound[OF Some] obtain P X M c R where
        d: "T = P @ X @ M @ c # R"
        "P = [] \<or> (\<exists>Q. Q \<noteq> [] \<and> newline \<notin> set Q \<and> P = Q @ ''://'')"
        "newline \<notin> set X" "list_all2 atom_matches A M" "sep c" "g = X @ M"
        by blast
      from d(2) have P: "P = [] \<or> (\<exists>Q. Q \<noteq> [] \<and> P = Q @ ''://'')" by blast
      from Some False eq have "clean re D [T] = Inr [g]" by simp
      with False d P fit have "clean re D [T] = Inr [g] \<and> g \<noteq> [] \<and> T = P @ g @ c # R \<and> sep c \<and>
             (P = [] \<or> (\<exists>Q. Q \<noteq> [] \<and> P = Q @ ''://'')) \<and>
             g = X @ M \<and> newline \<notin> set X \<and> fits D M" by simp
      then show ?thesis by blast
    qed
  qed
  have part2: "clean re D [T] \<noteq> Inr [] \<longleftrightarrow>
      (\<exists>X M c R. T = X @ M @ c # R \<and> newline \<notin> set X \<and> fits D M \<and> sep c)"
    if "D \<noteq> []"
  proof
    assume "clean re D [T] \<noteq> Inr []"
    with eq obtain g where g: "regexp_match A T = Some g" by (auto split: option.splits)
    from regexp_match_sound[OF g] obtain P X M c R where
      d: "T = P @ X @ M @ c # R"
      "P = [] \<or> (\<exists>Q. Q \<noteq> [] \<and> newline \<notin> set Q \<and> P = Q @ ''://'')"
      "newline \<notin> set X" "list_all2 atom_matches A M" "sep c"
      by blast
    from d(2) have "newline \<notin> set P" by (auto simp: newline_def)
    with d fit have "T = (P @ X) @ M @ c # R \<and> newline \<notin> set (P @ X) \<and> fits D M \<and> sep c"
      by simp
    then show "\<exists>X M c R. T = X @ M @ c # R \<and> newline \<notin> set X \<and> fits D M \<and> sep c" by blast
  next
    assume "\<exists>X M c R. T = X @ M @ c # R \<and> newline \<notin> set X \<and> fits D M \<and> sep c"
    then obtain X M c R where d: "T = X @ M @ c # R" "newline \<notin> set X" "fits D M" "sep c"
      by blast
    from d(3) fit have M: "list_all2 atom_matches A M" by simp
    from regexp_match_complete[OF d(2) M d(4), of R] d(1)
    obtain g where g: "regexp_match A T = Some g" by auto
    from regexp_match_sound[OF g] obtain X' M' where "g = X' @ M'" "list_all2 atom_matches A M'"
      by blast
    with fit fits_nonempty[of D M'] that have "g \<noteq> []" by simp
    with g eq show "clean re D [T] \<noteq> Inr []" by simp
  qed
  have part3: "clean re D [T] \<noteq> Inr []" if "D \<noteq> []" "newline \<notin> set T" "spec_accepts D T"
  proof -
    from spec_accepts_decomposition[OF that(3)] obtain X c R where
      d: "T = X @ D @ c # R" "sep c" by blast
    with that(2) have "newline \<notin> set X" by auto
    with d fits_self[of D] have
      "\<exists>X M c R. T = X @ M @ c # R \<and> newline \<notin> set X \<and> fits D M \<and> sep c" by blast
    with part2[OF that(1)] show ?thesis by simp
  qed
  show ?thesis
  proof (intro conjI impI)
    show "clean re D [T] = Inr [H] \<longleftrightarrow>
            H \<noteq> [] \<and> (\<exists>s. greedy_rest D T s \<and> greedy_host D s H)"
      by (rule part0)
  next
    show "clean re D [T] = Inr [] \<or>
          (\<exists>H P X M c R. clean re D [T] = Inr [H] \<and> H \<noteq> [] \<and> T = P @ H @ c # R \<and> sep c \<and>
             (P = [] \<or> (\<exists>Q. Q \<noteq> [] \<and> P = Q @ ''://'')) \<and>
             H = X @ M \<and> newline \<notin> set X \<and> fits D M)"
      by (rule part1)
  next
    assume "D \<noteq> []"
    then show "clean re D [T] \<noteq> Inr [] \<longleftrightarrow>
      (\<exists>X M c R. T = X @ M @ c # R \<and> newline \<notin> set X \<and> fits D M \<and> sep c)"
      by (rule part2)
  next
    assume "D \<noteq> [] \<and> newline \<notin> set T \<and> spec_accepts D T"
    then show "clean re D [T] \<noteq> Inr []" using part3 by simp
  qed
qed

theorem clean_single_text_witness:
  "domain_atoms ''example.com'' \<noteq> None \<and> ''example.com'' \<noteq> [] \<and>
   newline \<notin> set ''http://sub.example.com/page?x=1'' \<and>
   spec_accepts ''example.com'' ''http://sub.example.com/page?x=1'' \<and>
   clean no_re ''example.com'' [''http://sub.example.com/page?x=1''] = Inr [''sub.example.com''] \<and>
   (\<exists>s. greedy_rest ''example.com'' ''http://sub.example.com/page?x=1'' s \<and>
        greedy_host ''example.com'' s ''sub.example.com'') \<and>
   clean no_re ''example.com'' [''a.example.com/x?u=b.example.com/''] =
     Inr [''a.example.com/x?u=b.example.com''] \<and>
   (\<exists>s. greedy_rest ''example.com'' ''a.example.com/x?u=b.example.com/'' s \<and>
        greedy_host ''example.com'' s ''a.example.com/x?u=b.example.com'')"
proof -
  have a: "domain_atoms ''example.com'' \<noteq> None" by (simp add: metachar_def)
  have b: "''example.com'' \<noteq> [] \<and> newline \<notin> set ''http://sub.example.com/page?x=1'' \<and>
      spec_accepts ''example.com'' ''http://sub.example.com/page?x=1''"
    by (simp add: newline_def spec_accepts_def spec_host_def spec_strip_scheme_def sep_def
        suffix_to_prefix)
  have c: "clean no_re ''example.com'' [''http://sub.example.com/page?x=1''] =
      Inr [''sub.example.com'']"
    by (simp add: clean_eval)
  from clean_single_text[OF a, of no_re "''http://sub.example.com/page?x=1''" "''sub.example.com''",
      THEN conjunct1] c
  have g1: "\<exists>s. greedy_rest ''example.com'' ''http://sub.example.com/page?x=1'' s \<and>
        greedy_host ''example.com'' s ''sub.example.com''" by blast
  have d: "clean no_re ''example.com'' [''a.example.com/x?u=b.example.com/''] =
      Inr [''a.example.com/x?u=b.example.com'']"
    by (simp add: clean_eval)
  from clean_single_text[OF a, of no_re "''a.example.com/x?u=b.example.com/''"
      "''a.example.com/x?u=b.example.com''", THEN conjunct1] d
  have g2: "\<exists>s. greedy_rest ''example.com'' ''a.example.com/x?u=b.example.com/'' s \<and>
        greedy_host ''example.com'' s ''a.example.com/x?u=b.example.com''" by blast
  from a b c g1 d g2 show ?thesis by blast
qed

subsection \<open>Resolution of the options of a plugin class\<close>

lemmas meta_eval =
  classA_def classB_def classC_def declA_def declB_def declC_def meta_attr_def
  PluginMeta_new_def declared_options_def config_fields_def hasattr_def Let_def

text \<open>
  C9, as the specification states it, on the chain \<open>classA\<close>, \<open>classB\<close>, \<open>classC\<close>: the
  concrete \<open>classC\<close> omits \<^verbatim>\<open>search_url\<close>, its nearest non-abstract ancestor is
  \<open>classA\<close>, whose resolved \<^verbatim>\<open>search_url\<close> is the declared one, and yet the resolved
  \<^verbatim>\<open>search_url\<close> of \<open>classC\<close> is not that value: the parent \<open>classB\<close> is abstract, so
  nothing is inherited.
\<close>

theorem abstract_parent_blocks_inheritance:
  "meta_attr (class_meta declared_options classA) ''abstract'' = Some (PyBool False)
   \<and> meta_attr (class_meta declared_options classA) ''search_url'' =
       Some (PyStr ''http://a.example/search'')
   \<and> meta_attr (class_meta declared_options classB) ''abstract'' = Some (PyBool True)
   \<and> meta_attr (class_meta declared_options classC) ''abstract'' = Some (PyBool False)
   \<and> declC ''search_url'' = None
   \<and> meta_attr (class_meta declared_options classC) ''search_url'' = Some PyNone
   \<and> meta_attr (class_meta declared_options classC) ''search_url'' \<noteq>
       meta_attr (class_meta declared_options classA) ''search_url''"
  by (simp add: meta_eval)

text \<open>
  C9, amended. When a plugin class is defined, its options are \<^verbatim>\<open>Options(Meta)\<close> when it
  has no plugin parent or when the \<^verbatim>\<open>_meta\<close> of its parent is abstract; when the
  \<^verbatim>\<open>_meta\<close> of its parent is not abstract, every attribute of the parent's \<^verbatim>\<open>_meta\<close>
  that the class's own \<^verbatim>\<open>Meta\<close> does not declare is copied from the parent, and every
  other attribute is as \<^verbatim>\<open>Options(Meta)\<close> made it. Only the immediate parent counts: a
  non-abstract ancestor beyond an abstract parent gives nothing.
\<close>

theorem meta_resolution:
  "PluginMeta_new Options attr_meta class_Meta None =
     Inr (Options (case attr_meta of None \<Rightarrow> class_Meta | Some m \<Rightarrow> Some m))
   \<and> (bm ''abstract'' = Some a \<and> truthy a \<longrightarrow>
        PluginMeta_new Options attr_meta class_Meta (Some bm) =
          Inr (Options (case attr_meta of None \<Rightarrow> class_Meta | Some m \<Rightarrow> Some m)))
   \<and> (bm ''abstract'' = Some a \<and> \<not> truthy a \<longrightarrow>
        (\<exists>m. PluginMeta_new Options attr_meta class_Meta (Some bm) = Inr m \<and>
          (\<forall>attr. m attr =
             (if hasattr (case attr_meta of None \<Rightarrow> class_Meta | Some m \<Rightarrow> Some m) attr
              then Options (case attr_meta of None \<Rightarrow> class_Meta | Some m \<Rightarrow> Some m) attr
              else if bm attr \<noteq> None then bm attr
              else Options (case attr_meta of None \<Rightarrow> class_Meta | Some m \<Rightarrow> Some m) attr))))
   \<and> (class_meta Options b = Inr (Some bm) \<and> bm ''abstract'' = Some a \<and> truthy a \<longrightarrow>
        class_meta Options (Subclass b attr_meta) = Inr (Some (Options attr_meta)))
   \<and> (class_meta Options b = Inr (Some bm) \<and> bm ''abstract'' = Some a \<and> \<not> truthy a \<longrightarrow>
        (\<exists>m. class_meta Options (Subclass b attr_meta) = Inr (Some m) \<and>
          (\<forall>attr. m attr =
             (if hasattr attr_meta attr then Options attr_meta attr
              else if bm attr \<noteq> None then bm attr
              else Options attr_meta attr))))"
  by (auto simp: PluginMeta_new_def Let_def split: option.splits)

theorem meta_resolution_witness:
  "meta_attr (class_meta declared_options classD) ''search_url'' =
     Some (PyStr ''http://a.example/search'')
   \<and> meta_attr (class_meta declared_options classD) ''subdomains_selector'' = Some (PyStr ''h3'')
   \<and> class_meta declared_options classC = Inr (Some (declared_options (Some declC)))"
proof -
  let ?bmA = "declared_options (Some declA)"
  have A: "class_meta declared_options classA = Inr (Some ?bmA)"
    by (simp add: classA_def PluginMeta_new_def)
  have Aabs: "?bmA ''abstract'' = Some (PyBool False) \<and> \<not> truthy (PyBool False)"
    by (simp add: declared_options_def config_fields_def declA_def)
  from meta_resolution[of declared_options "Some declC" None ?bmA "PyBool False" classA,
      THEN conjunct2, THEN conjunct2, THEN conjunct2, THEN conjunct2] A Aabs
  obtain m where m: "class_meta declared_options (Subclass classA (Some declC)) = Inr (Some m)"
    and attrs: "\<forall>attr. m attr =
             (if hasattr (Some declC) attr then declared_options (Some declC) attr
              else if ?bmA attr \<noteq> None then ?bmA attr
              else declared_options (Some declC) attr)"
    by blast
  from attrs have "m ''search_url'' = Some (PyStr ''http://a.example/search'')"
    and "m ''subdomains_selector'' = Some (PyStr ''h3'')"
    by (simp_all add: hasattr_def declC_def declA_def declared_options_def config_fields_def)
  with m have D: "meta_attr (class_meta declared_options classD) ''search_url'' =
     Some (PyStr ''http://a.example/search'')
   \<and> meta_attr (class_meta declared_options classD) ''subdomains_selector'' = Some (PyStr ''h3'')"
    by (simp add: classD_def meta_attr_def)
  let ?bmB = "\<lambda>attr. if ?bmA attr \<noteq> None \<and> \<not> hasattr (Some declB) attr
                     then ?bmA attr else declared_options (Some declB) attr"
  from Aabs have B: "class_meta declared_options classB = Inr (Some ?bmB)"
    by (simp add: classB_def A PluginMeta_new_def Let_def)
  have Babs: "?bmB ''abstract'' = Some (PyBool True) \<and> truthy (PyBool True)"
    by (simp add: hasattr_def declB_def declared_options_def config_fields_def)
  from meta_resolution[of declared_options "Some declC" None ?bmB "PyBool True" classB,
      THEN conjunct2, THEN conjunct2, THEN conjunct2, THEN conjunct1] B Babs
  have "class_meta declared_options classC = Inr (Some (declared_options (Some declC)))"
    by (simp add: classC_def)
  with D show ?thesis by blast
qed

end
